theory Spec2Isabelle
  imports Main
begin

section \<open>JavaScript values shared by the models\<close>

text \<open>
  A JavaScript string is modelled as a \<^typ>\<open>string\<close>; one \<^typ>\<open>char\<close> stands for one
  UTF-16 code unit, so \<^const>\<open>length\<close> is the \<^verbatim>\<open>.length\<close> of the source and
  \<^const>\<open>take\<close> is \<^verbatim>\<open>.slice(0, n)\<close>. Only code units up to 255 are representable.
\<close>

type_synonym model_id = string

text \<open>
  A thrown value: \<^verbatim>\<open>err?.error?.type\<close> (absent on a plain \<^verbatim>\<open>Error\<close>), the
  error's \<^verbatim>\<open>name\<close> and its \<^verbatim>\<open>message\<close>.
\<close>

datatype js_error = JsError (err_type: "string option") (err_name: string) (err_message: string)

definition new_Error :: "string \<Rightarrow> js_error" where
  "new_Error msg = JsError None ''Error'' msg"

text \<open>
  \<^verbatim>\<open>${e?.message || e}\<close> in a template literal: the message when it is non-empty, else
  the error converted to a string, which for an empty message is its name.
\<close>

definition error_text :: "js_error \<Rightarrow> string" where
  "error_text e = (if err_message e \<noteq> [] then err_message e else err_name e)"

text \<open>
  A dynamically typed value as the orchestration loop inspects it: \<^verbatim>\<open>undefined\<close>,
  \<^verbatim>\<open>null\<close>, a string, or any other JSON value (kept abstract in \<open>'j\<close>).
\<close>

datatype 'j jsval = Undefined | Null | Str string | Other 'j

datatype message = Message (role: string) (content: "string option")

datatype 'j block = TextBlock string | ToolUse string "'j jsval" | OtherBlock

text \<open>
  The external collaborators of \<^verbatim>\<open>cli.ts\<close>, each a function of the state \<open>'w\<close> of the
  outside world that returns the new state: \<^verbatim>\<open>anthropic.messages.create\<close>,
  \<^verbatim>\<open>client.callTool\<close>, \<^verbatim>\<open>client.listTools\<close>; \<^verbatim>\<open>JSON.stringify\<close> on a value
  that is neither \<^verbatim>\<open>undefined\<close> nor \<^verbatim>\<open>null\<close>; and the text the console prints for a
  thrown value handed to it as an argument (\<^verbatim>\<open>util.inspect\<close>: for an \<^verbatim>\<open>Error\<close>, its
  stack).
\<close>

record ('w, 'j) env =
  create :: "'w \<Rightarrow> model_id \<Rightarrow> nat \<Rightarrow> message list \<Rightarrow> (js_error + 'j block list) \<times> 'w"
  callTool :: "'w \<Rightarrow> string \<Rightarrow> 'j jsval \<Rightarrow> (js_error + 'j jsval) \<times> 'w"
  listTools :: "'w \<Rightarrow> (js_error + unit) \<times> 'w"
  stringify :: "'j jsval \<Rightarrow> string"
  inspect :: "js_error \<Rightarrow> string"

text \<open>\<^verbatim>\<open>JSON.stringify(v)\<close>; \<^const>\<open>None\<close> is the result \<^verbatim>\<open>undefined\<close>.\<close>

definition JSON_stringify :: "('w, 'j) env \<Rightarrow> 'j jsval \<Rightarrow> string option" where
  "JSON_stringify env v =
     (case v of Undefined \<Rightarrow> None | Null \<Rightarrow> Some ''null'' | _ \<Rightarrow> Some (stringify env v))"

text \<open>A value interpolated into a template literal.\<close>

definition interpolate :: "string option \<Rightarrow> string" where
  "interpolate v = (case v of None \<Rightarrow> ''undefined'' | Some s \<Rightarrow> s)"

section \<open>String helpers of \<^verbatim>\<open>cli.ts\<close>\<close>

text \<open>The white space of \<^verbatim>\<open>\s\<close> and \<^verbatim>\<open>trim()\<close> among the code units up to 255.\<close>

definition is_space :: "char \<Rightarrow> bool" where
  "is_space c = (c \<in> set [CHR 0x09, CHR 0x0A, CHR 0x0B, CHR 0x0C, CHR 0x0D, CHR 0x20, CHR 0xA0])"

text \<open>\<^verbatim>\<open>s.replace(/\s+/g, ' ')\<close>: every maximal run of white space becomes one space.\<close>

function collapse_ws :: "string \<Rightarrow> string" where
  "collapse_ws [] = []"
| "collapse_ws (c # cs) =
     (if is_space c then CHR '' '' # collapse_ws (dropWhile is_space cs)
      else c # collapse_ws cs)"
  by pat_completeness auto
termination
  by (relation "measure length") (auto simp: le_imp_less_Suc length_dropWhile_le)

definition trim :: "string \<Rightarrow> string" where
  "trim s = rev (dropWhile is_space (rev (dropWhile is_space s)))"

text \<open>\<^verbatim>\<open>parts.join(sep)\<close>.\<close>

fun join :: "string \<Rightarrow> string list \<Rightarrow> string" where
  "join sep [] = []"
| "join sep [x] = x"
| "join sep (x # y # ys) = x @ sep @ join sep (y # ys)"

section \<open>Model gateway: \<^verbatim>\<open>runAnthropic\<close>\<close>

definition DEFAULT_MODEL_CANDIDATES :: "model_id list" where
  "DEFAULT_MODEL_CANDIDATES =
     [''claude-3-5-sonnet-20241022'', ''claude-sonnet-4-20250514'', ''claude-3-5-sonnet-latest'']"

text \<open>\<^verbatim>\<open>arr.indexOf(m)\<close> for an element that may be absent (\<^const>\<open>None\<close> is \<open>-1\<close>).\<close>

fun indexOf :: "'a list \<Rightarrow> 'a \<Rightarrow> nat option" where
  "indexOf [] m = None"
| "indexOf (x # xs) m = (if x = m then Some 0 else map_option Suc (indexOf xs m))"

text \<open>\<^verbatim>\<open>arr.filter((m, i, arr) => arr.indexOf(m) === i)\<close>: first occurrences only.\<close>

definition first_occurrences :: "'a list \<Rightarrow> 'a list" where
  "first_occurrences arr =
     map snd (filter (\<lambda>(i, m). indexOf arr m = Some i) (enumerate 0 arr))"

definition rotation :: "model_id \<Rightarrow> model_id list" where
  "rotation model = first_occurrences (model # DEFAULT_MODEL_CANDIDATES)"

text \<open>\<^verbatim>\<open>set.add(m)\<close> on a JavaScript \<^verbatim>\<open>Set\<close>, which keeps insertion order.\<close>

definition set_add :: "'a \<Rightarrow> 'a list \<Rightarrow> 'a list" where
  "set_add m s = (if m \<in> set s then s else s @ [m])"

text \<open>
  The state that lives in the closure of \<^verbatim>\<open>interactive\<close>: the \<^verbatim>\<open>failedModels\<close> set
  declared beside \<^verbatim>\<open>runAnthropic\<close>, and the outside world. \<open>requested\<close> is an
  observation log, not a program variable: the model ids passed to
  \<^verbatim>\<open>anthropic.messages.create\<close>, in call order.
\<close>

record 'w session =
  failedModels :: "model_id list"
  world :: 'w
  requested :: "model_id list"

definition unavailable_message :: "model_id list \<Rightarrow> string" where
  "unavailable_message failed = ''All candidate models unavailable: '' @ join '', '' failed"

definition next_candidate :: "model_id \<Rightarrow> model_id list \<Rightarrow> model_id option" where
  "next_candidate model failed = find (\<lambda>m. m \<notin> set failed) (rotation model)"

function runAnthropic ::
  "('w, 'j) env \<Rightarrow> 'w session \<Rightarrow> message list \<Rightarrow> model_id \<Rightarrow> nat
     \<Rightarrow> (js_error + 'j block list) \<times> 'w session" where
  "runAnthropic env st messages model maxTokens =
     (case create env (world st) model maxTokens messages of
        (Inr response, w) \<Rightarrow>
          (Inr response, st\<lparr>world := w, requested := requested st @ [model]\<rparr>)
      | (Inl err, w) \<Rightarrow>
          if err_type err = Some ''not_found_error'' then
            (case next_candidate model (set_add model (failedModels st)) of
               Some next \<Rightarrow>
                 if next \<noteq> [] then
                   runAnthropic env
                     (st\<lparr>failedModels := set_add model (failedModels st), world := w,
                         requested := requested st @ [model]\<rparr>)
                     messages next maxTokens
                 else
                   (Inl (new_Error (unavailable_message (set_add model (failedModels st)))),
                    st\<lparr>failedModels := set_add model (failedModels st), world := w,
                        requested := requested st @ [model]\<rparr>)
             | None \<Rightarrow>
                 (Inl (new_Error (unavailable_message (set_add model (failedModels st)))),
                  st\<lparr>failedModels := set_add model (failedModels st), world := w,
                      requested := requested st @ [model]\<rparr>))
          else (Inl err, st\<lparr>world := w, requested := requested st @ [model]\<rparr>))"
  by pat_completeness auto

termination runAnthropic
proof (relation "measure (\<lambda>(env, st, messages, model, maxTokens).
          card (set DEFAULT_MODEL_CANDIDATES - insert model (set (failedModels st))))")
  show "wf (measure (\<lambda>(env :: ('w, 'j) env, st :: 'w session, messages :: message list,
          model :: model_id, maxTokens :: nat).
          card (set DEFAULT_MODEL_CANDIDATES - insert model (set (failedModels st)))))"
    by simp
next
  fix env :: "('w, 'j) env" and st :: "'w session" and messages :: "message list"
    and model :: model_id and maxTokens :: nat and x w err n
  assume "next_candidate model (set_add model (failedModels st)) = Some n"
  then have "n \<in> set (rotation model)" and "n \<notin> set (set_add model (failedModels st))"
    by (auto simp: next_candidate_def find_Some_iff)
  moreover have "set (rotation model) \<subseteq> insert model (set DEFAULT_MODEL_CANDIDATES)"
    by (auto simp: rotation_def first_occurrences_def in_set_enumerate_eq)
  ultimately have n: "n \<in> set DEFAULT_MODEL_CANDIDATES" "n \<noteq> model"
    "n \<notin> set (failedModels st)"
    by (auto simp: set_add_def split: if_splits)
  let ?D = "set DEFAULT_MODEL_CANDIDATES"
  let ?F = "insert model (set (failedModels st))"
  have "?D - insert n ?F \<subset> ?D - ?F"
    using n by auto
  then have "card (?D - insert n ?F) < card (?D - ?F)"
    by (intro psubset_card_mono) auto
  then show "((env, st\<lparr>failedModels := set_add model (failedModels st), world := w,
                 requested := requested st @ [model]\<rparr>, messages, n, maxTokens),
              (env, st, messages, model, maxTokens))
             \<in> measure (\<lambda>(env, st, messages, model, maxTokens).
                 card (set DEFAULT_MODEL_CANDIDATES - insert model (set (failedModels st))))"
    by (auto simp: set_add_def insert_commute insert_absorb)
qed

declare runAnthropic.simps [simp del]

section \<open>Orchestration loop: \<^verbatim>\<open>processQuery\<close>\<close>

text \<open>
  The options the loop reads: \<^verbatim>\<open>opts.model\<close> (the empty string when the flag is
  absent), \<^verbatim>\<open>process.env.ANTHROPIC_MODEL\<close>, and the token limit already resolved
  from flag, environment and default.
\<close>

record config =
  opt_model :: string
  env_model :: "string option"
  max_tokens :: nat

text \<open>\<^verbatim>\<open>opts.model || process.env.ANTHROPIC_MODEL || DEFAULT_MODEL_CANDIDATES[0]\<close>.\<close>

definition chosenModel :: "config \<Rightarrow> model_id" where
  "chosenModel cfg =
     (if opt_model cfg \<noteq> [] then opt_model cfg
      else case env_model cfg of
             Some m \<Rightarrow> if m \<noteq> [] then m else DEFAULT_MODEL_CANDIDATES ! 0
           | None \<Rightarrow> DEFAULT_MODEL_CANDIDATES ! 0)"

text \<open>The local variables of one \<^verbatim>\<open>processQuery\<close> call, with the closure state.\<close>

record 'w query_state =
  messages :: "message list"
  finalParts :: "string list"
  sess :: "'w session"

definition fullText :: "('w, 'j) env \<Rightarrow> 'j jsval \<Rightarrow> string" where
  "fullText env c =
     (case c of Undefined \<Rightarrow> [] | Null \<Rightarrow> [] | Str s \<Rightarrow> s | Other j \<Rightarrow> stringify env c)"

definition singleLine :: "('w, 'j) env \<Rightarrow> 'j jsval \<Rightarrow> string" where
  "singleLine env c = trim (collapse_ws (fullText env c))"

definition preview :: "string \<Rightarrow> string" where
  "preview line = (if length line > 50 then take 50 line @ ''...'' else line)"

definition calling_line :: "('w, 'j) env \<Rightarrow> string \<Rightarrow> 'j jsval \<Rightarrow> string" where
  "calling_line env toolName toolArgs =
     ''[Calling tool '' @ toolName @ '' args='' @ interpolate (JSON_stringify env toolArgs) @ '']''"

definition result_line :: "string \<Rightarrow> string \<Rightarrow> string" where
  "result_line toolName pv = ''[Tool '' @ toolName @ '' result: '' @ pv @ '']''"

definition failed_line :: "string \<Rightarrow> js_error \<Rightarrow> string" where
  "failed_line toolName toolErr = ''[Tool '' @ toolName @ '' failed: '' @ error_text toolErr @ '']''"

definition error_line :: "string \<Rightarrow> js_error \<Rightarrow> string" where
  "error_line toolName toolErr = ''[Tool '' @ toolName @ '' error: '' @ error_text toolErr @ '']''"

definition error_turn :: "string \<Rightarrow> js_error \<Rightarrow> message" where
  "error_turn toolName toolErr =
     Message ''user'' (Some (''Tool '' @ toolName @ '' error: '' @ error_text toolErr))"

text \<open>
  The body of \<^verbatim>\<open>for (const c of response.content)\<close>; the flag is \<^verbatim>\<open>usedTool\<close>.
  \<^verbatim>\<open>client.callTool\<close> yields the \<^verbatim>\<open>content\<close> of its result, or throws.
\<close>

fun processBlock ::
  "('w, 'j) env \<Rightarrow> bool \<times> 'w query_state \<Rightarrow> 'j block \<Rightarrow> bool \<times> 'w query_state" where
  "processBlock env (usedTool, q) (TextBlock text) =
     (usedTool, q\<lparr>finalParts := finalParts q @ [text]\<rparr>)"
| "processBlock env (usedTool, q) (ToolUse toolName toolArgs) =
     (case callTool env (world (sess q)) toolName toolArgs of
        (Inr c, w) \<Rightarrow>
          (True, q\<lparr>messages := messages q @ [Message ''user'' (JSON_stringify env c)],
                   finalParts := finalParts q @
                     [calling_line env toolName toolArgs,
                      result_line toolName (preview (singleLine env c))],
                   sess := (sess q)\<lparr>world := w\<rparr>\<rparr>)
      | (Inl toolErr, w) \<Rightarrow>
          (True, q\<lparr>messages := messages q @ [error_turn toolName toolErr],
                   finalParts := finalParts q @
                     [calling_line env toolName toolArgs,
                      failed_line toolName toolErr,
                      error_line toolName toolErr],
                   sess := (sess q)\<lparr>world := w\<rparr>\<rparr>))"
| "processBlock env (usedTool, q) OtherBlock = (usedTool, q)"

definition processBlocks ::
  "('w, 'j) env \<Rightarrow> 'w query_state \<Rightarrow> 'j block list \<Rightarrow> bool \<times> 'w query_state" where
  "processBlocks env q response = foldl (processBlock env) (False, q) response"

text \<open>
  \<^verbatim>\<open>for (let safety = 0; safety < 5; safety++)\<close> with the response in hand. The result
  is the error that escaped from \<^verbatim>\<open>runAnthropic\<close>, if any, and the state reached.
\<close>

function rounds ::
  "('w, 'j) env \<Rightarrow> model_id \<Rightarrow> nat \<Rightarrow> nat \<Rightarrow> 'w query_state \<Rightarrow> 'j block list
     \<Rightarrow> js_error option \<times> 'w query_state" where
  "rounds env chosen maxTokens safety q response =
     (if safety < 5 then
        (case processBlocks env q response of
           (usedTool, q1) \<Rightarrow>
             if \<not> usedTool then (None, q1)
             else (case runAnthropic env (sess q1) (messages q1) chosen maxTokens of
                     (Inl err, st) \<Rightarrow> (Some err, q1\<lparr>sess := st\<rparr>)
                   | (Inr response', st) \<Rightarrow>
                       rounds env chosen maxTokens (safety + 1) (q1\<lparr>sess := st\<rparr>) response'))
      else (None, q))"
  by pat_completeness auto
termination
  by (relation "measure (\<lambda>(env, chosen, maxTokens, safety, q, response). 5 - safety)") auto

declare rounds.simps [simp del]

definition runQuery ::
  "('w, 'j) env \<Rightarrow> config \<Rightarrow> 'w session \<Rightarrow> string \<Rightarrow> js_error option \<times> 'w query_state" where
  "runQuery env cfg st query =
     (let q0 = \<lparr>messages = [Message ''user'' (Some query)], finalParts = [], sess = st\<rparr>
      in case runAnthropic env st (messages q0) (chosenModel cfg) (max_tokens cfg) of
           (Inl err, st1) \<Rightarrow> (Some err, q0\<lparr>sess := st1\<rparr>)
         | (Inr response, st1) \<Rightarrow>
             rounds env (chosenModel cfg) (max_tokens cfg) 0 (q0\<lparr>sess := st1\<rparr>) response)"

definition processQuery ::
  "('w, 'j) env \<Rightarrow> config \<Rightarrow> 'w session \<Rightarrow> string \<Rightarrow> (js_error + string) \<times> 'w session" where
  "processQuery env cfg st query =
     (case runQuery env cfg st query of
        (Some err, q) \<Rightarrow> (Inl err, sess q)
      | (None, q) \<Rightarrow> (Inr (join [CHR 0x0A] (finalParts q)), sess q))"

section \<open>Console loop of \<^verbatim>\<open>interactive\<close>\<close>

text \<open>
  \<^verbatim>\<open>toLowerCase()\<close> on the letters A to Z; the other code units up to 255 that it would
  change do not lower to a letter of \<^verbatim>\<open>exit\<close> or of a URL scheme.
\<close>

definition to_lower :: "char \<Rightarrow> char" where
  "to_lower c =
     (if (65::nat) \<le> of_char c \<and> of_char c \<le> (90::nat) then char_of (of_char c + (32::nat))
      else c)"

text \<open>
  \<^verbatim>\<open>const failedModels = new Set<string>()\<close> is evaluated once, before the loop.
\<close>

definition initial_session :: "'w \<Rightarrow> 'w session" where
  "initial_session w = \<lparr>failedModels = [], world = w, requested = []\<rparr>"

text \<open>
  The second argument of \<^verbatim>\<open>console.error('Error processing query:', e?.message || e)\<close>
  as the console prints it: a non-empty message is a string and is printed as it is;
  otherwise the argument is the thrown value itself, which the console inspects.
\<close>

definition console_arg :: "('w, 'j) env \<Rightarrow> js_error \<Rightarrow> string" where
  "console_arg env e = (if err_message e \<noteq> [] then err_message e else inspect env e)"

text \<open>
  \<^verbatim>\<open>while (true)\<close> over the lines the user enters. The result is what was printed, the
  state when the loop was left, and the error that left \<^verbatim>\<open>interactive\<close>, if any
  (\<^verbatim>\<open>refreshToolsIfChanged\<close> is outside the \<^verbatim>\<open>try\<close>). The end of the list is the end
  of the input.
\<close>

fun console_loop ::
  "('w, 'j) env \<Rightarrow> config \<Rightarrow> 'w session \<Rightarrow> string list
     \<Rightarrow> string list \<times> 'w session \<times> js_error option" where
  "console_loop env cfg st [] = ([], st, None)"
| "console_loop env cfg st (line # lines) =
     (let q = trim line in
      if map to_lower q = ''exit'' then ([], st, None)
      else if q = [] then console_loop env cfg st lines
      else (case listTools env (world st) of
              (Inl err, w) \<Rightarrow> ([], st\<lparr>world := w\<rparr>, Some err)
            | (Inr u, w) \<Rightarrow>
                (case processQuery env cfg (st\<lparr>world := w\<rparr>) q of
                   (r, st') \<Rightarrow>
                     (case console_loop env cfg st' lines of
                        (out, fin) \<Rightarrow>
                          ((case r of
                              Inr resp \<Rightarrow> CHR 0x0A # resp
                            | Inl err \<Rightarrow> ''Error processing query: '' @ console_arg env err) # out,
                           fin)))))"

section \<open>Session manager: \<^verbatim>\<open>ClientSession\<close>\<close>

text \<open>
  The key of a pending call or the \<^verbatim>\<open>id\<close> of an inbound message: a non-negative integer,
  a string, \<^verbatim>\<open>null\<close>, or some other value (a fraction, a boolean, an object). The
  session itself only ever stores integer keys.
\<close>

datatype msg_id = IdNum nat | IdStr string | IdNull | IdOther

text \<open>The \<^verbatim>\<open>params\<close> the session sends: \<^verbatim>\<open>{}\<close> or \<^verbatim>\<open>{ name, arguments }\<close>.\<close>

datatype 'v params = NoParams | ToolParams string 'v

datatype 'v request = Request (req_id: nat) (req_method: string) (req_params: "'v params")

text \<open>
  An inbound message as the listener inspects it: a value that is not an object, or an
  object with its \<^verbatim>\<open>id\<close> (absent when \<^verbatim>\<open>'id' in msg\<close> is false), its \<^verbatim>\<open>error\<close> (absent
  when falsy, else the error's \<^verbatim>\<open>message\<close>, empty when it has none) and its \<^verbatim>\<open>result\<close>.
\<close>

datatype 'v inbound = NonObject | Object (obj_id: "msg_id option") (obj_error: "string option") (obj_result: 'v)

datatype 'v outcome = Resolved 'v | Rejected js_error

text \<open>
  One invocation of \<^verbatim>\<open>call\<close>: the request, the error \<^verbatim>\<open>transport.send\<close> threw (if
  any), and the state of the promise \<^verbatim>\<open>p\<close> whose handler sits in the pending map.
\<close>

record 'v call_rec =
  request :: "'v request"
  send_error :: "js_error option"
  inner :: "'v outcome option"

text \<open>
  The fields of \<^verbatim>\<open>ClientSession\<close>. A handler in \<^verbatim>\<open>pending\<close> is represented by the index
  of its call in \<open>calls\<close>, the promises created so far. Of the transport the model keeps
  what was sent, whether \<^verbatim>\<open>close\<close> was called, and the inbound stream
  \<^verbatim>\<open>transport.messages\<close>: the messages the transport has produced and nobody has read
  yet, oldest first. The stream is pulled, not pushed: a message stays in it until the
  listener's loop takes it.
\<close>

record 'v client_session =
  idCounter :: nat
  pending :: "msg_id \<rightharpoonup> nat"
  listening :: bool
  calls :: "'v call_rec list"
  sent :: "'v request list"
  closed :: bool
  unread :: "'v inbound list"

definition new_ClientSession :: "'v client_session" where
  "new_ClientSession =
     \<lparr>idCounter = 1, pending = Map.empty, listening = False, calls = [], sent = [],
      closed = False, unread = []\<rparr>"

text \<open>
  \<^verbatim>\<open>this.idCounter++\<close> on a JavaScript number: integers are exact up to \<open>2^53\<close>, where
  adding one no longer changes the value.
\<close>

definition js_increment :: "nat \<Rightarrow> nat" where
  "js_increment n = (if n < 2 ^ 53 then n + 1 else n)"

text \<open>\<^verbatim>\<open>call(method, params)\<close>, given what \<^verbatim>\<open>transport.send\<close> does; returns the promise.\<close>

definition call ::
  "string \<Rightarrow> 'v params \<Rightarrow> js_error option \<Rightarrow> 'v client_session \<Rightarrow> nat \<times> 'v client_session" where
  "call method ps send_result s =
     (let id = idCounter s;
          req = Request id method ps;
          p = length (calls s)
      in (p, s\<lparr>idCounter := js_increment (idCounter s),
               pending := (pending s)(IdNum id \<mapsto> p),
               calls := calls s @ [\<lparr>request = req, send_error = send_result, inner = None\<rparr>],
               sent := sent s @ [req]\<rparr>))"

text \<open>What the caller of \<^verbatim>\<open>call\<close> observes: the send error, else the promise \<^verbatim>\<open>p\<close>.\<close>

definition call_result :: "'v call_rec \<Rightarrow> 'v outcome option" where
  "call_result c = (case send_error c of Some e \<Rightarrow> Some (Rejected e) | None \<Rightarrow> inner c)"

text \<open>The handler stored by \<^verbatim>\<open>call\<close>, applied to an inbound object.\<close>

definition handler_outcome :: "string option \<Rightarrow> 'v \<Rightarrow> 'v outcome" where
  "handler_outcome err res =
     (case err of
        Some m \<Rightarrow> Rejected (new_Error (if m \<noteq> [] then m else ''RPC Error''))
      | None \<Rightarrow> Resolved res)"

text \<open>Settling a promise; a promise that is already settled stays as it is.\<close>

definition settle :: "nat \<Rightarrow> 'v outcome \<Rightarrow> 'v call_rec list \<Rightarrow> 'v call_rec list" where
  "settle p out cs =
     (if p < length cs \<and> inner (cs ! p) = None then cs[p := (cs ! p)\<lparr>inner := Some out\<rparr>] else cs)"

text \<open>
  The body of the listener's \<^verbatim>\<open>for await\<close> loop, for the message \<open>msg\<close> it has taken
  from the stream.
\<close>

definition on_message :: "'v inbound \<Rightarrow> 'v client_session \<Rightarrow> 'v client_session" where
  "on_message msg s =
     (case msg of
        NonObject \<Rightarrow> s
      | Object None err res \<Rightarrow> s
      | Object (Some i) err res \<Rightarrow>
          (case pending s i of
             None \<Rightarrow> s
           | Some p \<Rightarrow>
               s\<lparr>calls := settle p (handler_outcome err res) (calls s),
                 pending := (pending s)(i := None)\<rparr>))"

text \<open>
  \<^verbatim>\<open>ensureListener\<close> sets the flag and starts the loop, once. The loop takes its first
  message only after the code that called \<^verbatim>\<open>ensureListener\<close> has run on to its next
  \<^verbatim>\<open>await\<close>, so starting it reads nothing yet.
\<close>

definition ensureListener :: "'v client_session \<Rightarrow> 'v client_session" where
  "ensureListener s = (if listening s then s else s\<lparr>listening := True\<rparr>)"

text \<open>
  One iteration of the loop: the oldest unread message is taken from the stream and the
  body runs on it. Without a listener there is no loop, and nothing is taken.
\<close>

definition listener_next :: "'v client_session \<Rightarrow> 'v client_session" where
  "listener_next s =
     (if \<not> listening s then s
      else case unread s of
             [] \<Rightarrow> s
           | msg # rest \<Rightarrow> on_message msg (s\<lparr>unread := rest\<rparr>))"

definition close :: "'v client_session \<Rightarrow> 'v client_session" where
  "close s = s\<lparr>closed := True\<rparr>"

text \<open>
  What can happen to a session, in the order it happens: a public method is invoked (with
  the outcome of its \<^verbatim>\<open>transport.send\<close>), the transport produces an inbound message,
  which joins the stream, or the listener's loop runs one iteration.
\<close>

datatype 'v event =
    Initialize "js_error option"
  | ListTools "js_error option"
  | CallTool string 'v "js_error option"
  | Inbound "'v inbound"
  | Deliver
  | Close

fun step :: "'v client_session \<Rightarrow> 'v event \<Rightarrow> 'v client_session" where
  "step s (Initialize sr) = snd (call ''initialize'' NoParams sr (ensureListener s))"
| "step s (ListTools sr) = snd (call ''list_tools'' NoParams sr s)"
| "step s (CallTool name args sr) = snd (call ''call_tool'' (ToolParams name args) sr s)"
| "step s (Inbound msg) = s\<lparr>unread := unread s @ [msg]\<rparr>"
| "step s Deliver = listener_next s"
| "step s Close = close s"

definition run :: "'v client_session \<Rightarrow> 'v event list \<Rightarrow> 'v client_session" where
  "run s evs = foldl step s evs"

fun is_call :: "'v event \<Rightarrow> bool" where
  "is_call (Initialize sr) = True"
| "is_call (ListTools sr) = True"
| "is_call (CallTool name args sr) = True"
| "is_call e = False"

fun answers :: "nat \<Rightarrow> 'v event \<Rightarrow> bool" where
  "answers i (Inbound (Object (Some k) err res)) = (k = IdNum i)"
| "answers i e = False"

fun event_outcome :: "'v event \<Rightarrow> 'v outcome option" where
  "event_outcome (Inbound (Object k err res)) = Some (handler_outcome err res)"
| "event_outcome e = None"

text \<open>The outcome dictated by the first inbound message of a trace that carries the id.\<close>

definition reply :: "nat \<Rightarrow> 'v event list \<Rightarrow> 'v outcome option" where
  "reply i evs = (case find (answers i) evs of None \<Rightarrow> None | Some e \<Rightarrow> event_outcome e)"

definition calls_in :: "'v event list \<Rightarrow> nat" where
  "calls_in evs = length (filter is_call evs)"

text \<open>The message the transport produces at an event, and those of a history, in order.\<close>

fun produced :: "'v event \<Rightarrow> 'v inbound list" where
  "produced (Inbound msg) = [msg]"
| "produced e = []"

definition arrivals :: "'v event list \<Rightarrow> 'v inbound list" where
  "arrivals evs = concat (map produced evs)"

text \<open>
  The message the listener reads at an event in the state \<open>s\<close>, and the messages it reads
  in the course of a history that starts in \<open>s\<close>, in order.
\<close>

fun taken :: "'v client_session \<Rightarrow> 'v event \<Rightarrow> 'v inbound list" where
  "taken s Deliver = (if listening s then take 1 (unread s) else [])"
| "taken s e = []"

fun delivered :: "'v client_session \<Rightarrow> 'v event list \<Rightarrow> 'v inbound list" where
  "delivered s [] = []"
| "delivered s (e # evs) = taken s e @ delivered (step s e) evs"

text \<open>
  What holds of every session that has issued fewer than \<open>2^53\<close> calls: the counter is
  one more than the number of calls, the call at index \<open>p\<close> has id \<open>p + 1\<close>, and every
  pending entry leads from the id of an unsettled call to that call.
\<close>

definition session_inv :: "'v client_session \<Rightarrow> bool" where
  "session_inv s \<longleftrightarrow>
      idCounter s = length (calls s) + 1
    \<and> idCounter s \<le> 2 ^ 53
    \<and> (\<forall>p < length (calls s). req_id (request (calls s ! p)) = p + 1)
    \<and> (\<forall>k p. pending s k = Some p \<longrightarrow>
          k = IdNum (p + 1) \<and> p < length (calls s) \<and> inner (calls s ! p) = None)"

fun send_failure :: "'v event \<Rightarrow> js_error option" where
  "send_failure (Initialize sr) = sr"
| "send_failure (ListTools sr) = sr"
| "send_failure (CallTool name args sr) = sr"
| "send_failure e = None"

section \<open>URL normalisation: \<^verbatim>\<open>normalizeUrl\<close>\<close>

text \<open>
  What \<^verbatim>\<open>normalizeUrl\<close> uses of the platform's \<^verbatim>\<open>URL\<close> class: the constructor
  (\<^const>\<open>None\<close> when it throws), the \<^verbatim>\<open>pathname\<close> getter and setter, and
  \<^verbatim>\<open>toString()\<close>.
\<close>

record 'u url_api =
  parse :: "string \<Rightarrow> 'u option"
  pathname :: "'u \<Rightarrow> string"
  set_pathname :: "'u \<Rightarrow> string \<Rightarrow> 'u"
  href :: "'u \<Rightarrow> string"

text \<open>\<^verbatim>\<open>s.replace(/\/$/, '')\<close>: one trailing slash is removed.\<close>

definition strip_slash :: "string \<Rightarrow> string" where
  "strip_slash s = (if s \<noteq> [] \<and> last s = CHR ''/'' then butlast s else s)"

text \<open>\<^verbatim>\<open>s.replace(/\/+/g, '/')\<close>: every run of slashes becomes one slash.\<close>

function collapse_slashes :: "string \<Rightarrow> string" where
  "collapse_slashes [] = []"
| "collapse_slashes (c # cs) =
     (if c = CHR ''/'' then CHR ''/'' # collapse_slashes (dropWhile (\<lambda>d. d = CHR ''/'') cs)
      else c # collapse_slashes cs)"
  by pat_completeness auto
termination
  by (relation "measure length") (auto simp: le_imp_less_Suc length_dropWhile_le)

text \<open>\<^verbatim>\<open>s.endsWith(t)\<close>.\<close>

definition ends_with :: "string \<Rightarrow> string \<Rightarrow> bool" where
  "ends_with s t = (length t \<le> length s \<and> drop (length s - length t) s = t)"

text \<open>The mount path after the first two statements that assign it.\<close>

definition mount_of :: "string \<Rightarrow> string" where
  "mount_of mountPath =
     (let m = (if mountPath \<noteq> [] \<and> hd mountPath = CHR ''/'' then mountPath
               else CHR ''/'' # mountPath)
      in if m = ''/'' then ''/'' else strip_slash m)"

definition normalizeUrl :: "'u url_api \<Rightarrow> string \<Rightarrow> string \<Rightarrow> string" where
  "normalizeUrl api baseUrl mountPath =
     (let trimmedBase = strip_slash baseUrl;
          mountPath = mount_of mountPath
      in case parse api trimmedBase of
           None \<Rightarrow> trimmedBase @ mountPath
         | Some parsed \<Rightarrow>
             (let currentPath = strip_slash (pathname api parsed)
              in if currentPath = mountPath then trimmedBase
                 else if ends_with currentPath mountPath then trimmedBase
                 else strip_slash
                        (href api (set_pathname api parsed
                           (collapse_slashes (currentPath @ mountPath))))))"

subsection \<open>A fragment of the platform's URL class\<close>

text \<open>
  The platform's URL class on the inputs \<open>scheme://authority path tail\<close> with one of the
  schemes \<^verbatim>\<open>http\<close>, \<^verbatim>\<open>https\<close>, \<^verbatim>\<open>ws\<close>, \<^verbatim>\<open>wss\<close>, \<^verbatim>\<open>ftp\<close>, a lower-case host without
  credentials or default port, a path of characters that need no escaping and no dot
  segments, and a tail that is empty or starts at \<^verbatim>\<open>?\<close> or \<^verbatim>\<open>#\<close>. An input without a
  scheme is rejected, as the platform does. Other inputs are outside this fragment; it
  rejects them.
\<close>

datatype simple_url = SimpleUrl (u_scheme: string) (u_authority: string) (u_path: string) (u_tail: string)

definition is_alpha :: "char \<Rightarrow> bool" where
  "is_alpha c = ((65::nat) \<le> of_char c \<and> of_char c \<le> (90::nat)
               \<or> (97::nat) \<le> of_char c \<and> of_char c \<le> (122::nat))"

definition is_scheme_char :: "char \<Rightarrow> bool" where
  "is_scheme_char c = (is_alpha c \<or> (48::nat) \<le> of_char c \<and> of_char c \<le> (57::nat)
                      \<or> c \<in> set ''+-.'')"

definition split_scheme :: "string \<Rightarrow> (string \<times> string) option" where
  "split_scheme s =
     (let sch = takeWhile is_scheme_char s; rest = dropWhile is_scheme_char s
      in if sch \<noteq> [] \<and> is_alpha (hd sch) \<and> rest \<noteq> [] \<and> hd rest = CHR '':''
         then Some (map to_lower sch, tl rest) else None)"

definition simple_parse :: "string \<Rightarrow> simple_url option" where
  "simple_parse s =
     (case split_scheme s of
        None \<Rightarrow> None
      | Some (sch, rest) \<Rightarrow>
          if sch \<in> set [''http'', ''https'', ''ws'', ''wss'', ''ftp''] \<and> take 2 rest = ''//'' then
            (let r = drop 2 rest;
                 auth = takeWhile (\<lambda>c. c \<notin> set ''/?#'') r;
                 r' = dropWhile (\<lambda>c. c \<notin> set ''/?#'') r;
                 p = takeWhile (\<lambda>c. c \<notin> set ''?#'') r';
                 t = dropWhile (\<lambda>c. c \<notin> set ''?#'') r'
             in if auth = [] then None
                else Some (SimpleUrl sch auth (if p = [] then ''/'' else p) t))
          else None)"

definition simple_href :: "simple_url \<Rightarrow> string" where
  "simple_href u = u_scheme u @ ''://'' @ u_authority u @ u_path u @ u_tail u"

text \<open>The setter, for a path that starts with a slash and needs no escaping.\<close>

definition simple_set_pathname :: "simple_url \<Rightarrow> string \<Rightarrow> simple_url" where
  "simple_set_pathname u p = SimpleUrl (u_scheme u) (u_authority u) p (u_tail u)"

definition simple_api :: "simple_url url_api" where
  "simple_api =
     \<lparr>parse = simple_parse, pathname = u_path, set_pathname = simple_set_pathname,
      href = simple_href\<rparr>"

section \<open>Fallback transport: \<^verbatim>\<open>streamableHttpClient\<close>\<close>

text \<open>
  A response of \<^verbatim>\<open>fetch\<close>: the status and the body, \<^const>\<open>None\<close> when \<^verbatim>\<open>res.body\<close> is
  \<^verbatim>\<open>null\<close>, else the decoded chunks the reader delivers until it is done.
\<close>

record http_response =
  status :: nat
  body :: "string list option"

text \<open>\<^verbatim>\<open>res.ok\<close>.\<close>

definition ok :: "http_response \<Rightarrow> bool" where
  "ok res = (200 \<le> status res \<and> status res \<le> 299)"

text \<open>
  The network, with its own state \<open>'n\<close>: \<^verbatim>\<open>fetch(url, { method: 'GET' })\<close> and
  \<^verbatim>\<open>fetch(url, { method: 'POST', body })\<close>, each of which may reject.
\<close>

record 'n network =
  fetch_get :: "'n \<Rightarrow> string \<Rightarrow> (js_error + http_response) \<times> 'n"
  fetch_post :: "'n \<Rightarrow> string \<Rightarrow> string option \<Rightarrow> (js_error + http_response) \<times> 'n"

datatype candidate = Candidate (cand_read: string) (cand_write: string)

definition probeCandidates :: "candidate list" where
  "probeCandidates =
     [Candidate ''/read'' ''/write'', Candidate ''/stream/read'' ''/stream/write'',
      Candidate ''/events'' ''/send'']"

text \<open>\<^verbatim>\<open>opts.handshakePath\<close>: absent, \<^verbatim>\<open>null\<close>, or a string.\<close>

datatype handshake = HandshakeDefault | HandshakeSkip | HandshakePath string

record create_options =
  opt_baseUrl :: string
  opt_readPath :: "string option"
  opt_writePath :: "string option"
  handshakePath :: handshake

text \<open>The variables of the closure that the transport's methods share.\<close>

record transport =
  base :: string
  readPath :: string
  writePath :: string
  readUrl :: string
  writeUrl :: string

text \<open>\<^verbatim>\<open>x || dflt\<close> on an optional string.\<close>

definition or_default :: "string option \<Rightarrow> string \<Rightarrow> string" where
  "or_default x dflt = (case x of Some s \<Rightarrow> if s \<noteq> [] then s else dflt | None \<Rightarrow> dflt)"

definition handshakeUrl :: "create_options \<Rightarrow> string option" where
  "handshakeUrl opts =
     (case handshakePath opts of
        HandshakeSkip \<Rightarrow> None
      | HandshakeDefault \<Rightarrow> Some (strip_slash (opt_baseUrl opts) @ ''/client'')
      | HandshakePath p \<Rightarrow> Some (strip_slash (opt_baseUrl opts) @ (if p \<noteq> [] then p else ''/client'')))"

text \<open>
  \<^verbatim>\<open>streamableHttpClient(opts)\<close>: the closure variables, after the optional handshake
  whose outcome is ignored.
\<close>

definition streamableHttpClient ::
  "'n network \<Rightarrow> create_options \<Rightarrow> 'n \<Rightarrow> transport \<times> 'n" where
  "streamableHttpClient net opts n =
     (let b = strip_slash (opt_baseUrl opts);
          rp = or_default (opt_readPath opts) ''/read'';
          wp = or_default (opt_writePath opts) ''/write''
      in (\<lparr>base = b, readPath = rp, writePath = wp, readUrl = b @ rp, writeUrl = b @ wp\<rparr>,
          case handshakeUrl opts of
            None \<Rightarrow> n
          | Some url \<Rightarrow> snd (fetch_post net n url None)))"

text \<open>
  \<^verbatim>\<open>for (const cand of probeCandidates)\<close>: the response in hand, the closure variables
  and the network state after the loop. A probe that rejects is skipped.
\<close>

fun probe ::
  "'n network \<Rightarrow> candidate list \<Rightarrow> http_response \<times> transport \<times> 'n
     \<Rightarrow> http_response \<times> transport \<times> 'n" where
  "probe net [] (res, t, n) = (res, t, n)"
| "probe net (cand # cands) (res, t, n) =
     (case fetch_get net n (base t @ cand_read cand) of
        (Inr pr, n') \<Rightarrow>
          if ok pr then
            (pr, t\<lparr>readPath := cand_read cand, writePath := cand_write cand,
                  readUrl := base t @ cand_read cand, writeUrl := base t @ cand_write cand\<rparr>, n')
          else probe net cands (res, t, n')
      | (Inl err, n') \<Rightarrow> probe net cands (res, t, n'))"

text \<open>What one line of the stream yields: nothing when it is empty or does not parse.\<close>

definition yield_line :: "(string \<Rightarrow> 'j option) \<Rightarrow> string \<Rightarrow> 'j list" where
  "yield_line JSON_parse line =
     (if line = [] then [] else case JSON_parse line of Some v \<Rightarrow> [v] | None \<Rightarrow> [])"

text \<open>
  \<^verbatim>\<open>while ((idx = buffer.indexOf('\n')) >= 0)\<close>: the values yielded and the buffer left.
\<close>

function drain :: "(string \<Rightarrow> 'j option) \<Rightarrow> string \<Rightarrow> 'j list \<times> string" where
  "drain JSON_parse buffer =
     (if CHR 0x0A \<in> set buffer then
        (let line = trim (takeWhile (\<lambda>c. c \<noteq> CHR 0x0A) buffer);
             rest = tl (dropWhile (\<lambda>c. c \<noteq> CHR 0x0A) buffer)
         in case drain JSON_parse rest of
              (vs, b) \<Rightarrow> (yield_line JSON_parse line @ vs, b))
      else ([], buffer))"
  by pat_completeness auto
termination
proof (relation "measure (\<lambda>(p, buffer). length buffer)")
  show "wf (measure (\<lambda>(p :: string \<Rightarrow> 'j option, buffer). length buffer))"
    by simp
next
  fix JSON_parse :: "string \<Rightarrow> 'j option" and buffer :: string and line rest
  assume "CHR 0x0A \<in> set buffer" and "rest = tl (dropWhile (\<lambda>c. c \<noteq> CHR 0x0A) buffer)"
  moreover from this have "dropWhile (\<lambda>c. c \<noteq> CHR 0x0A) buffer \<noteq> []"
    by (simp add: dropWhile_eq_Nil_conv)
  ultimately have "length rest < length buffer"
    using length_dropWhile_le [of "\<lambda>c. c \<noteq> CHR 0x0A" buffer]
    by (cases "dropWhile (\<lambda>c. c \<noteq> CHR 0x0A) buffer") auto
  then show "((JSON_parse, rest), (JSON_parse, buffer)) \<in> measure (\<lambda>(p, buffer). length buffer)"
    by simp
qed

declare drain.simps [simp del]

text \<open>The reading loop over the chunks, then the rest of the buffer.\<close>

fun read_chunks :: "(string \<Rightarrow> 'j option) \<Rightarrow> string \<Rightarrow> string list \<Rightarrow> 'j list" where
  "read_chunks JSON_parse buffer [] = yield_line JSON_parse (trim buffer)"
| "read_chunks JSON_parse buffer (chunk # chunks) =
     (case drain JSON_parse (buffer @ chunk) of
        (vs, b) \<Rightarrow> vs @ read_chunks JSON_parse b chunks)"

text \<open>
  The async iterator of \<^verbatim>\<open>messages\<close>, run to the end of the stream: the error thrown or
  the values yielded, with the closure variables and the network state.
\<close>

definition messages_of ::
  "'n network \<Rightarrow> (string \<Rightarrow> 'j option) \<Rightarrow> transport \<Rightarrow> 'n
     \<Rightarrow> (js_error + 'j list) \<times> transport \<times> 'n" where
  "messages_of net JSON_parse t n =
     (case fetch_get net n (readUrl t) of
        (Inl err, n1) \<Rightarrow> (Inl err, t, n1)
      | (Inr res, n1) \<Rightarrow>
          (case (if status res = 404 then probe net probeCandidates (res, t, n1) else (res, t, n1)) of
             (res', t', n2) \<Rightarrow>
               (case body res' of
                  None \<Rightarrow> (Inl (new_Error ''No response body for streaming''), t', n2)
                | Some chunks \<Rightarrow> (Inr (read_chunks JSON_parse [] chunks), t', n2))))"

text \<open>\<^verbatim>\<open>send(msg)\<close>, given the serialised message: the error thrown, if any.\<close>

definition send :: "'n network \<Rightarrow> transport \<Rightarrow> string \<Rightarrow> 'n \<Rightarrow> js_error option \<times> 'n" where
  "send net t msg n =
     (case fetch_post net n (writeUrl t) (Some msg) of
        (Inl err, n') \<Rightarrow> (Some err, n')
      | (Inr res, n') \<Rightarrow> (None, n'))"

text \<open>A probe of the URL fails, or succeeds, whatever the state of the network.\<close>

definition probe_fails :: "'n network \<Rightarrow> string \<Rightarrow> bool" where
  "probe_fails net url =
     (\<forall>n. case fst (fetch_get net n url) of Inr pr \<Rightarrow> \<not> ok pr | Inl err \<Rightarrow> True)"

definition probe_succeeds :: "'n network \<Rightarrow> string \<Rightarrow> bool" where
  "probe_succeeds net url = (\<forall>n. \<exists>pr n'. fetch_get net n url = (Inr pr, n') \<and> ok pr)"

text \<open>The closure variables after the pair of a candidate has been adopted.\<close>

definition adopt :: "candidate \<Rightarrow> transport \<Rightarrow> transport" where
  "adopt cand t =
     t\<lparr>readPath := cand_read cand, writePath := cand_write cand,
       readUrl := base t @ cand_read cand, writeUrl := base t @ cand_write cand\<rparr>"

text \<open>What the iterator does with the response it settles on.\<close>

definition stream_of :: "(string \<Rightarrow> 'j option) \<Rightarrow> http_response \<Rightarrow> js_error + 'j list" where
  "stream_of JSON_parse res =
     (case body res of
        None \<Rightarrow> Inl (new_Error ''No response body for streaming'')
      | Some chunks \<Rightarrow> Inr (read_chunks JSON_parse [] chunks))"

text \<open>
  A server given by what it answers to a GET of each URL, and \<^verbatim>\<open>JSON.parse\<close> on lines
  that are a string of digits without leading zero or are no JSON at all (any other
  line is outside this parser; it rejects it).
\<close>

definition static_network :: "(string \<Rightarrow> js_error + http_response) \<Rightarrow> unit network" where
  "static_network pages =
     \<lparr>fetch_get = (\<lambda>n url. (pages url, n)),
      fetch_post = (\<lambda>n url b. (Inr \<lparr>status = 200, body = None\<rparr>, n))\<rparr>"

definition digits_parse :: "string \<Rightarrow> string option" where
  "digits_parse line =
     (if line \<noteq> [] \<and> (\<forall>c \<in> set line. (48::nat) \<le> of_char c \<and> of_char c \<le> (57::nat))
         \<and> (line = ''0'' \<or> hd line \<noteq> CHR ''0'')
      then Some line else None)"

definition default_options :: create_options where
  "default_options =
     \<lparr>opt_baseUrl = ''http://h/mcp/'', opt_readPath = None, opt_writePath = None,
      handshakePath = HandshakeDefault\<rparr>"

definition not_found_network :: "unit network" where
  "not_found_network = static_network (\<lambda>url. Inr \<lparr>status = 404, body = Some [''Not Found'']\<rparr>)"

definition bare_network :: "unit network" where
  "bare_network = static_network (\<lambda>url. Inr \<lparr>status = 404, body = None\<rparr>)"

definition events_network :: "unit network" where
  "events_network =
     static_network (\<lambda>url.
       if url = ''http://h/mcp/events''
       then Inr \<lparr>status = 200, body = Some [''1'', ''2'' @ [CHR 0x0A] @ '' oops'', [CHR 0x0A] @ ''3 '']\<rparr>
       else if url = ''http://h/mcp/stream/read'' then Inl (new_Error ''socket hang up'')
       else Inr \<lparr>status = 404, body = None\<rparr>)"

definition transport0 :: transport where
  "transport0 =
     \<lparr>base = ''http://h/mcp'', readPath = ''/read'', writePath = ''/write'',
      readUrl = ''http://h/mcp/read'', writeUrl = ''http://h/mcp/write''\<rparr>"

section \<open>Vocabulary of the statements about the orchestration loop\<close>

fun is_tool_use :: "'j block \<Rightarrow> bool" where
  "is_tool_use (ToolUse toolName toolArgs) = True"
| "is_tool_use b = False"

fun block_text :: "'j block \<Rightarrow> string list" where
  "block_text (TextBlock text) = [text]"
| "block_text b = []"

text \<open>
  One round: the blocks of the response in hand are processed, then the model is asked
  again with the conversation reached (the last statement of the loop body).
\<close>

definition one_round ::
  "('w, 'j) env \<Rightarrow> model_id \<Rightarrow> nat \<Rightarrow> 'w query_state \<times> 'j block list
     \<Rightarrow> 'w query_state \<times> 'j block list" where
  "one_round env chosen maxTokens = (\<lambda>(q, response).
     (let q1 = snd (processBlocks env q response)
      in case runAnthropic env (sess q1) (messages q1) chosen maxTokens of
           (Inr response', st) \<Rightarrow> (q1\<lparr>sess := st\<rparr>, response')
         | (Inl err, st) \<Rightarrow> (q1\<lparr>sess := st\<rparr>, [])))"

text \<open>A backend that answers every request, from every state, with a tool invocation.\<close>

definition always_tool_use :: "('w, 'j) env \<Rightarrow> bool" where
  "always_tool_use env =
     (\<forall>w model maxTokens msgs. \<exists>response w'.
        create env w model maxTokens msgs = (Inr response, w') \<and>
        (\<exists>b \<in> set response. is_tool_use b))"

text \<open>A backend that never throws.\<close>

definition backend_answers :: "('w, 'j) env \<Rightarrow> bool" where
  "backend_answers env =
     (\<forall>w model maxTokens msgs. \<exists>response w'.
        create env w model maxTokens msgs = (Inr response, w'))"

text \<open>
  The built-in candidates a call that starts at \<open>model\<close> with the exhausted set
  \<open>failed\<close> can still fall back to, in order.
\<close>

definition untried :: "model_id list \<Rightarrow> model_id \<Rightarrow> model_id list" where
  "untried failed model = filter (\<lambda>d. d \<notin> set failed \<and> d \<noteq> model) DEFAULT_MODEL_CANDIDATES"

text \<open>The backend rejects a model as not found, or answers it, whatever the state.\<close>

definition rejects :: "('w, 'j) env \<Rightarrow> model_id \<Rightarrow> bool" where
  "rejects env model =
     (\<forall>w maxTokens msgs. \<exists>err w'.
        create env w model maxTokens msgs = (Inl err, w') \<and> err_type err = Some ''not_found_error'')"

definition accepts :: "('w, 'j) env \<Rightarrow> model_id \<Rightarrow> bool" where
  "accepts env model =
     (\<forall>w maxTokens msgs. \<exists>response w'. create env w model maxTokens msgs = (Inr response, w'))"

section \<open>Environments for evaluation\<close>

text \<open>
  A stateless outside world: the backend answers from the model id and the conversation,
  a tool from its name; strings are stringified in double quotes, other values as
  \<^verbatim>\<open>{}\<close>; a thrown value is inspected as its name followed by one line of stack.
\<close>

definition scripted ::
  "(model_id \<Rightarrow> message list \<Rightarrow> js_error + unit block list) \<Rightarrow> (string \<Rightarrow> js_error + unit jsval)
     \<Rightarrow> (unit, unit) env" where
  "scripted backend tool =
     \<lparr>create = (\<lambda>w model maxTokens msgs. (backend model msgs, w)),
      callTool = (\<lambda>w toolName toolArgs. (tool toolName, w)),
      listTools = (\<lambda>w. (Inr (), w)),
      stringify = (\<lambda>v. case v of Str s \<Rightarrow> [CHR 0x22] @ s @ [CHR 0x22] | _ \<Rightarrow> ''{}''),
      inspect = (\<lambda>e. err_name e @ ''\<newline>    at <anonymous>'')\<rparr>"

definition cfg0 :: config where
  "cfg0 = \<lparr>opt_model = [], env_model = None, max_tokens = 1000\<rparr>"

definition q_start :: "string \<Rightarrow> unit query_state" where
  "q_start query =
     \<lparr>messages = [Message ''user'' (Some query)], finalParts = [], sess = initial_session ()\<rparr>"

definition not_found :: js_error where
  "not_found = JsError (Some ''not_found_error'') ''NotFoundError'' ''model not found''"

text \<open>A backend that keeps asking for the tool \<^verbatim>\<open>t\<close>, and tools that succeed or fail.\<close>

definition tool_loop_env :: "(unit, unit) env" where
  "tool_loop_env = scripted (\<lambda>model msgs. Inr [ToolUse ''t'' Null]) (\<lambda>toolName. Inr (Str ''ok''))"

definition long_text :: string where
  "long_text = ''The  quick brown fox jumps over the lazy dog and keeps on running''"

definition long_env :: "(unit, unit) env" where
  "long_env = scripted (\<lambda>model msgs. Inr []) (\<lambda>toolName. Inr (Str long_text))"

definition failing_env :: "(unit, unit) env" where
  "failing_env =
     scripted
       (\<lambda>model msgs.
          if length msgs = 1 then Inr [TextBlock ''hm'', ToolUse ''t'' Null, TextBlock ''wait'']
          else Inr [TextBlock ''sorry''])
       (\<lambda>toolName. Inl (new_Error ''connection refused''))"

definition direct_env :: "(unit, unit) env" where
  "direct_env =
     scripted (\<lambda>model msgs. Inr [TextBlock ''It has 4 tables.'', OtherBlock, TextBlock ''Done.''])
       (\<lambda>toolName. Inr Null)"

text \<open>Backends that know only the last built-in candidate, or none.\<close>

definition only_last_env :: "(unit, unit) env" where
  "only_last_env =
     scripted
       (\<lambda>model msgs. if model = ''claude-3-5-sonnet-latest'' then Inr [TextBlock ''answer'']
          else Inl not_found)
       (\<lambda>toolName. Inr Null)"

definition only_last_tool_env :: "(unit, unit) env" where
  "only_last_tool_env =
     scripted
       (\<lambda>model msgs.
          if model = ''claude-3-5-sonnet-latest''
          then (if length msgs = 1 then Inr [ToolUse ''t'' Null] else Inr [TextBlock ''answer''])
          else Inl not_found)
       (\<lambda>toolName. Inr Null)"

definition reject_env :: "(unit, unit) env" where
  "reject_env = scripted (\<lambda>model msgs. Inl not_found) (\<lambda>toolName. Inr Null)"

text \<open>A backend that throws an \<^verbatim>\<open>Error\<close> without message.\<close>

definition mute_env :: "(unit, unit) env" where
  "mute_env = scripted (\<lambda>model msgs. Inl (new_Error [])) (\<lambda>toolName. Inr Null)"

section \<open>Properties of the orchestration loop\<close>

lemma processBlock_keeps_flag: "fst (processBlock env (True, q) b) = True"
  by (cases b) (auto split: prod.splits sum.splits)

lemma foldl_processBlock_flag: "fst (foldl (processBlock env) (True, q) bs) = True"
proof (induction bs arbitrary: q)
  case Nil
  show ?case by simp
next
  case (Cons b bs)
  obtain q' where "processBlock env (True, q) b = (True, q')"
    using processBlock_keeps_flag [of env q b] by (cases "processBlock env (True, q) b") simp
  with Cons.IH [of q'] show ?case by simp
qed

lemma processBlock_tool_sets_flag:
  "is_tool_use b \<Longrightarrow> fst (processBlock env (u, q) b) = True"
  by (cases b) (auto split: prod.splits sum.splits)

lemma foldl_processBlock_tool:
  "\<exists>b \<in> set bs. is_tool_use b \<Longrightarrow> fst (foldl (processBlock env) (u, q) bs) = True"
proof (induction bs arbitrary: u q)
  case Nil
  then show ?case by simp
next
  case (Cons b bs)
  obtain u' q' where s: "processBlock env (u, q) b = (u', q')"
    by (cases "processBlock env (u, q) b")
  show ?case
  proof (cases "is_tool_use b")
    case True
    then have "u' = True" using processBlock_tool_sets_flag [of b env u q] s by simp
    then show ?thesis using s foldl_processBlock_flag [of env q' bs] by simp
  next
    case False
    with Cons.prems have "\<exists>b \<in> set bs. is_tool_use b" by auto
    from Cons.IH [OF this, of u' q'] s show ?thesis by simp
  qed
qed

lemma foldl_processBlock_no_tool:
  "\<forall>b \<in> set bs. \<not> is_tool_use b \<Longrightarrow>
     foldl (processBlock env) (u, q) bs =
       (u, q\<lparr>finalParts := finalParts q @ concat (map block_text bs)\<rparr>)"
proof (induction bs arbitrary: q)
  case Nil
  show ?case by simp
next
  case (Cons b bs)
  then show ?case by (cases b) simp_all
qed

lemma processBlock_extends:
  "\<exists>ms ps. messages (snd (processBlock env (u, q) b)) = messages q @ ms \<and>
           finalParts (snd (processBlock env (u, q) b)) = finalParts q @ ps"
  by (cases b) (auto split: prod.splits sum.splits)

lemma foldl_processBlock_extends:
  "\<exists>ms ps. messages (snd (foldl (processBlock env) (u, q) bs)) = messages q @ ms \<and>
           finalParts (snd (foldl (processBlock env) (u, q) bs)) = finalParts q @ ps"
proof (induction bs arbitrary: u q)
  case Nil
  show ?case by simp
next
  case (Cons b bs)
  obtain u' q' where s: "processBlock env (u, q) b = (u', q')"
    by (cases "processBlock env (u, q) b")
  from processBlock_extends [of env u q b] s obtain ms ps
    where "messages q' = messages q @ ms" and "finalParts q' = finalParts q @ ps"
    by auto
  moreover from Cons.IH [of u' q'] obtain ms' ps'
    where "messages (snd (foldl (processBlock env) (u', q') bs)) = messages q' @ ms'"
      and "finalParts (snd (foldl (processBlock env) (u', q') bs)) = finalParts q' @ ps'"
    by auto
  ultimately show ?case using s by simp
qed

lemma processBlock_closure:
  "failedModels (sess (snd (processBlock env (u, q) b))) = failedModels (sess q) \<and>
   requested (sess (snd (processBlock env (u, q) b))) = requested (sess q)"
  by (cases b) (auto split: prod.splits sum.splits)

lemma foldl_processBlock_closure:
  "failedModels (sess (snd (foldl (processBlock env) (u, q) bs))) = failedModels (sess q) \<and>
   requested (sess (snd (foldl (processBlock env) (u, q) bs))) = requested (sess q)"
proof (induction bs arbitrary: u q)
  case Nil
  show ?case by simp
next
  case (Cons b bs)
  obtain u' q' where s: "processBlock env (u, q) b = (u', q')"
    by (cases "processBlock env (u, q) b")
  with processBlock_closure [of env u q b] Cons.IH [of u' q'] show ?case by simp
qed

lemma runAnthropic_accepts:
  "create env (world st) model maxTokens msgs = (Inr response, w) \<Longrightarrow>
     runAnthropic env st msgs model maxTokens =
       (Inr response, st\<lparr>world := w, requested := requested st @ [model]\<rparr>)"
  by (subst runAnthropic.simps) simp

lemma rounds_cap: "\<not> safety < 5 \<Longrightarrow> rounds env chosen maxTokens safety q response = (None, q)"
  by (subst rounds.simps) simp

lemma rounds_converged:
  "safety < 5 \<Longrightarrow> fst (processBlocks env q response) = False \<Longrightarrow>
     rounds env chosen maxTokens safety q response = (None, snd (processBlocks env q response))"
  by (subst rounds.simps, cases "processBlocks env q response") simp

lemma rounds_next:
  assumes "safety < 5" and "processBlocks env q response = (True, q1)"
  shows "rounds env chosen maxTokens safety q response =
       (case runAnthropic env (sess q1) (messages q1) chosen maxTokens of
          (Inl err, st) \<Rightarrow> (Some err, q1\<lparr>sess := st\<rparr>)
        | (Inr response', st) \<Rightarrow>
            rounds env chosen maxTokens (safety + 1) (q1\<lparr>sess := st\<rparr>) response')"
  using assms by (subst rounds.simps) simp

lemma rounds_continue:
  "safety < 5 \<Longrightarrow> fst (processBlocks env q response) = True \<Longrightarrow>
     rounds env chosen maxTokens safety q response =
       (case runAnthropic env (sess (snd (processBlocks env q response)))
               (messages (snd (processBlocks env q response))) chosen maxTokens of
          (Inl err, st) \<Rightarrow> (Some err, (snd (processBlocks env q response))\<lparr>sess := st\<rparr>)
        | (Inr response', st) \<Rightarrow>
            rounds env chosen maxTokens (safety + 1)
              ((snd (processBlocks env q response))\<lparr>sess := st\<rparr>) response')"
proof -
  assume lt: "safety < 5" and flag: "fst (processBlocks env q response) = True"
  obtain q1 where p: "processBlocks env q response = (True, q1)"
    using flag by (cases "processBlocks env q response") auto
  show ?thesis
    unfolding p using lt by (subst rounds.simps) (simp add: p split: prod.splits sum.splits)
qed

lemma rounds_always_tool:
  assumes "always_tool_use env"
  shows "(\<exists>b \<in> set response. is_tool_use b) \<Longrightarrow> n = 5 - safety \<Longrightarrow>
     rounds env chosen maxTokens safety q response =
       (None, fst ((one_round env chosen maxTokens ^^ n) (q, response)))"
proof (induction n arbitrary: safety q response)
  case 0
  then show ?case by (simp add: rounds_cap)
next
  case (Suc n)
  then have lt: "safety < 5" and n: "n = 5 - (safety + 1)" by simp_all
  let ?q1 = "snd (processBlocks env q response)"
  have flag: "fst (processBlocks env q response) = True"
    using Suc.prems(1) by (simp add: processBlocks_def foldl_processBlock_tool)
  obtain r' w' where c: "create env (world (sess ?q1)) chosen maxTokens (messages ?q1) = (Inr r', w')"
    and t: "\<exists>b \<in> set r'. is_tool_use b"
    using assms unfolding always_tool_use_def by blast
  let ?st = "(sess ?q1)\<lparr>world := w', requested := requested (sess ?q1) @ [chosen]\<rparr>"
  have run: "runAnthropic env (sess ?q1) (messages ?q1) chosen maxTokens = (Inr r', ?st)"
    using c by (rule runAnthropic_accepts)
  have "rounds env chosen maxTokens safety q response =
          rounds env chosen maxTokens (safety + 1) (?q1\<lparr>sess := ?st\<rparr>) r'"
    using lt flag run by (simp add: rounds_continue)
  also have "\<dots> = (None, fst ((one_round env chosen maxTokens ^^ n) (?q1\<lparr>sess := ?st\<rparr>, r')))"
    using Suc.IH [OF t n] .
  also have "(?q1\<lparr>sess := ?st\<rparr>, r') = one_round env chosen maxTokens (q, response)"
    using run by (simp add: one_round_def Let_def)
  finally show ?case by (simp add: funpow_swap1)
qed

lemma one_round_requested:
  assumes "always_tool_use env"
  shows "requested (sess (fst ((one_round env chosen maxTokens ^^ n) (q, response)))) =
           requested (sess q) @ replicate n chosen"
proof (induction n arbitrary: q response)
  case 0
  show ?case by simp
next
  case (Suc n)
  let ?q1 = "snd (processBlocks env q response)"
  obtain r' w' where c: "create env (world (sess ?q1)) chosen maxTokens (messages ?q1) = (Inr r', w')"
    using assms unfolding always_tool_use_def by blast
  let ?st = "(sess ?q1)\<lparr>world := w', requested := requested (sess ?q1) @ [chosen]\<rparr>"
  have run: "runAnthropic env (sess ?q1) (messages ?q1) chosen maxTokens = (Inr r', ?st)"
    using c by (rule runAnthropic_accepts)
  have step: "one_round env chosen maxTokens (q, response) = (?q1\<lparr>sess := ?st\<rparr>, r')"
    using run by (simp add: one_round_def Let_def)
  have "requested (sess ?q1) = requested (sess q)"
    using foldl_processBlock_closure [of env False q response] by (simp add: processBlocks_def)
  then have "requested (sess (?q1\<lparr>sess := ?st\<rparr>)) = requested (sess q) @ [chosen]"
    by simp
  with Suc.IH [of "?q1\<lparr>sess := ?st\<rparr>" r'] step show ?case
    by (simp add: funpow_swap1 replicate_app_Cons_same)
qed

lemma rounds_no_error:
  assumes "backend_answers env"
  shows "n = 5 - safety \<Longrightarrow> fst (rounds env chosen maxTokens safety q response) = None"
proof (induction n arbitrary: safety q response)
  case 0
  then show ?case by (simp add: rounds_cap)
next
  case (Suc n)
  then have lt: "safety < 5" and n: "n = 5 - (safety + 1)" by simp_all
  let ?q1 = "snd (processBlocks env q response)"
  show ?case
  proof (cases "fst (processBlocks env q response)")
    case False
    with lt show ?thesis by (simp add: rounds_converged)
  next
    case True
    obtain r' w' where c: "create env (world (sess ?q1)) chosen maxTokens (messages ?q1) = (Inr r', w')"
      using assms unfolding backend_answers_def by blast
    have "runAnthropic env (sess ?q1) (messages ?q1) chosen maxTokens =
            (Inr r', (sess ?q1)\<lparr>world := w', requested := requested (sess ?q1) @ [chosen]\<rparr>)"
      using c by (rule runAnthropic_accepts)
    with lt True Suc.IH [OF n] show ?thesis by (simp add: rounds_continue)
  qed
qed

text \<open>
  Claim C6. Against a backend that always returns a tool invocation, the loop body runs
  exactly five times: the state returned is the fifth iterate of \<^const>\<open>one_round\<close> from
  the first response, no error is raised, the answer is the accumulated parts joined by
  newlines, and the model has been asked six times (once before the loop, once at the
  end of each round). A response with no tool invocation ends the loop at once: the
  state returned has only that response's text blocks appended, and the answer of a
  query whose first response has none is those texts joined by newlines. Joined means:
  the parts in order, each but the first preceded by the separator, here one line feed;
  no parts give the empty string.
\<close>

theorem round_cap:
  "(always_tool_use env \<longrightarrow>
      (\<exists>response st1 q.
         runAnthropic env st [Message ''user'' (Some query)] (chosenModel cfg) (max_tokens cfg) =
           (Inr response, st1)
       \<and> q = fst ((one_round env (chosenModel cfg) (max_tokens cfg) ^^ 5)
                  (\<lparr>messages = [Message ''user'' (Some query)], finalParts = [], sess = st1\<rparr>,
                   response))
       \<and> runQuery env cfg st query = (None, q)
       \<and> processQuery env cfg st query = (Inr (join [CHR 0x0A] (finalParts q)), sess q)
       \<and> requested (sess q) = requested st @ replicate 6 (chosenModel cfg)))
   \<and> (safety < 5 \<and> (\<forall>b \<in> set response. \<not> is_tool_use b) \<longrightarrow>
        rounds env chosen maxTokens safety q' response =
          (None, q'\<lparr>finalParts := finalParts q' @ concat (map block_text response)\<rparr>))
   \<and> (runAnthropic env st [Message ''user'' (Some query)] (chosenModel cfg) (max_tokens cfg) =
         (Inr response, st') \<and> (\<forall>b \<in> set response. \<not> is_tool_use b) \<longrightarrow>
        processQuery env cfg st query =
          (Inr (join [CHR 0x0A] (concat (map block_text response))), st'))
   \<and> join sep [] = []
   \<and> join sep (part # parts) = part @ concat (map (\<lambda>p. sep @ p) parts)"
proof (intro conjI impI)
  assume a: "always_tool_use env"
  let ?m = "chosenModel cfg" and ?k = "max_tokens cfg"
  let ?msgs = "[Message ''user'' (Some query)]"
  obtain r w where c: "create env (world st) ?m ?k ?msgs = (Inr r, w)"
    and t: "\<exists>b \<in> set r. is_tool_use b"
    using a unfolding always_tool_use_def by blast
  let ?sta = "st\<lparr>world := w, requested := requested st @ [?m]\<rparr>"
  let ?start = "\<lparr>messages = ?msgs, finalParts = [], sess = ?sta\<rparr>"
  let ?q = "fst ((one_round env ?m ?k ^^ 5) (?start, r))"
  have run: "runAnthropic env st ?msgs ?m ?k = (Inr r, ?sta)"
    using c by (rule runAnthropic_accepts)
  have "rounds env ?m ?k 0 ?start r = (None, ?q)"
    by (rule rounds_always_tool [OF a t]) simp
  then have rq: "runQuery env cfg st query = (None, ?q)"
    using run by (simp add: runQuery_def)
  have pq: "processQuery env cfg st query = (Inr (join [CHR 0x0A] (finalParts ?q)), sess ?q)"
    by (simp add: processQuery_def rq)
  have "requested (sess ?q) = (requested st @ [?m]) @ replicate 5 ?m"
    using one_round_requested [OF a, where chosen = ?m and maxTokens = ?k and n = 5 and q = ?start
        and response = r] by simp
  also have "\<dots> = requested st @ replicate 6 ?m"
    by (simp add: numeral_eq_Suc)
  finally show "\<exists>response st1 q.
         runAnthropic env st ?msgs ?m ?k = (Inr response, st1)
       \<and> q = fst ((one_round env ?m ?k ^^ 5)
                  (\<lparr>messages = ?msgs, finalParts = [], sess = st1\<rparr>, response))
       \<and> runQuery env cfg st query = (None, q)
       \<and> processQuery env cfg st query = (Inr (join [CHR 0x0A] (finalParts q)), sess q)
       \<and> requested (sess q) = requested st @ replicate 6 ?m"
    using run rq pq by blast
next
  assume "safety < 5 \<and> (\<forall>b \<in> set response. \<not> is_tool_use b)"
  then show "rounds env chosen maxTokens safety q' response =
          (None, q'\<lparr>finalParts := finalParts q' @ concat (map block_text response)\<rparr>)"
    using rounds_converged [of safety env q' response chosen maxTokens]
    by (simp add: processBlocks_def foldl_processBlock_no_tool)
next
  assume h: "runAnthropic env st [Message ''user'' (Some query)] (chosenModel cfg) (max_tokens cfg) =
         (Inr response, st') \<and> (\<forall>b \<in> set response. \<not> is_tool_use b)"
  let ?start = "\<lparr>messages = [Message ''user'' (Some query)], finalParts = [], sess = st'\<rparr>"
  have "rounds env (chosenModel cfg) (max_tokens cfg) 0 ?start response =
          (None, ?start\<lparr>finalParts := finalParts ?start @ concat (map block_text response)\<rparr>)"
    using h rounds_converged [of 0 env ?start response "chosenModel cfg" "max_tokens cfg"]
    by (simp add: processBlocks_def foldl_processBlock_no_tool)
  with h show "processQuery env cfg st query =
          (Inr (join [CHR 0x0A] (concat (map block_text response))), st')"
    by (simp add: processQuery_def runQuery_def)
next
  show "join sep [] = []"
    by simp
next
  show "join sep (part # parts) = part @ concat (map (\<lambda>p. sep @ p) parts)"
    by (induction parts arbitrary: part) simp_all
qed

theorem round_cap_witness:
  "always_tool_use tool_loop_env
   \<and> fst (runQuery tool_loop_env cfg0 (initial_session ()) ''go'') = None
   \<and> processQuery tool_loop_env cfg0 (initial_session ()) ''go'' =
       (Inr ''[Calling tool t args=null]\<newline>[Tool t result: ok]\<newline>[Calling tool t args=null]\<newline>[Tool t result: ok]\<newline>[Calling tool t args=null]\<newline>[Tool t result: ok]\<newline>[Calling tool t args=null]\<newline>[Tool t result: ok]\<newline>[Calling tool t args=null]\<newline>[Tool t result: ok]'',
        \<lparr>failedModels = [], world = (),
         requested = replicate 6 ''claude-3-5-sonnet-20241022''\<rparr>)
   \<and> rounds direct_env ''m'' 1000 4 (q_start ''go'') [TextBlock ''a'', OtherBlock] =
       (None, (q_start ''go'')\<lparr>finalParts := [''a'']\<rparr>)
   \<and> processQuery direct_env cfg0 (initial_session ()) ''go'' =
       (Inr ''It has 4 tables.\<newline>Done.'',
        \<lparr>failedModels = [], world = (), requested = [''claude-3-5-sonnet-20241022'']\<rparr>)"
proof -
  let ?r = "[TextBlock ''It has 4 tables.'', OtherBlock, TextBlock ''Done.''] :: unit block list"
  let ?s = "\<lparr>failedModels = [], world = (), requested = [''claude-3-5-sonnet-20241022'']\<rparr>"
  have a: "always_tool_use tool_loop_env"
    by (simp add: always_tool_use_def tool_loop_env_def scripted_def)
  have blocks: "processBlocks tool_loop_env q [ToolUse ''t'' Null] =
     (True, q\<lparr>messages := messages q @ [Message ''user'' (Some [CHR 0x22, CHR ''o'', CHR ''k'', CHR 0x22])],
              finalParts := finalParts q @ [''[Calling tool t args=null]'', ''[Tool t result: ok]''],
              sess := (sess q)\<lparr>world := ()\<rparr>\<rparr>)" for q
    by (simp add: processBlocks_def tool_loop_env_def scripted_def calling_line_def result_line_def
        JSON_stringify_def interpolate_def preview_def singleLine_def fullText_def trim_def
        is_space_def)
  have run: "runAnthropic tool_loop_env st msgs m k =
     (Inr [ToolUse ''t'' Null], st\<lparr>world := (), requested := requested st @ [m]\<rparr>)" for st msgs m k
    by (rule runAnthropic_accepts) (simp add: tool_loop_env_def scripted_def)
  have e: "processQuery tool_loop_env cfg0 (initial_session ()) ''go'' =
       (Inr ''[Calling tool t args=null]\<newline>[Tool t result: ok]\<newline>[Calling tool t args=null]\<newline>[Tool t result: ok]\<newline>[Calling tool t args=null]\<newline>[Tool t result: ok]\<newline>[Calling tool t args=null]\<newline>[Tool t result: ok]\<newline>[Calling tool t args=null]\<newline>[Tool t result: ok]'',
        \<lparr>failedModels = [], world = (),
         requested = replicate 6 ''claude-3-5-sonnet-20241022''\<rparr>)"
    by (simp add: processQuery_def runQuery_def run blocks rounds_continue rounds_cap
        initial_session_def cfg0_def chosenModel_def DEFAULT_MODEL_CANDIDATES_def numeral_eq_Suc)
  have g: "runAnthropic direct_env (initial_session ()) [Message ''user'' (Some ''go'')]
             (chosenModel cfg0) (max_tokens cfg0) = (Inr ?r, ?s)"
    by (rule trans [OF runAnthropic_accepts [where response = ?r and w = "()"]])
      (simp_all add: direct_env_def scripted_def initial_session_def cfg0_def chosenModel_def
        DEFAULT_MODEL_CANDIDATES_def)
  have n: "(4::nat) < 5 \<and> (\<forall>b \<in> set [TextBlock ''a'', OtherBlock :: unit block]. \<not> is_tool_use b)"
    by simp
  have m: "\<forall>b \<in> set ?r. \<not> is_tool_use b"
    by simp
  have f: "finalParts (q_start ''go'') = []"
    by (simp add: q_start_def)
  have r1: "rounds direct_env ''m'' 1000 4 (q_start ''go'') [TextBlock ''a'', OtherBlock] =
       (None, (q_start ''go'')\<lparr>finalParts := [''a'']\<rparr>)"
    using round_cap [where env = direct_env and safety = 4 and chosen = "''m''"
        and maxTokens = 1000 and q' = "q_start ''go''"
        and response = "[TextBlock ''a'', OtherBlock]", THEN conjunct2, THEN conjunct1, THEN mp, OF n]
    by (simp add: f)
  have r2: "processQuery direct_env cfg0 (initial_session ()) ''go'' =
       (Inr ''It has 4 tables.\<newline>Done.'', ?s)"
    using round_cap [where env = direct_env and st = "initial_session ()" and query = "''go''"
        and cfg = cfg0 and response = ?r and st' = ?s, THEN conjunct2, THEN conjunct2,
        THEN conjunct1, THEN mp, OF conjI, OF g m]
    by simp
  from round_cap [where env = tool_loop_env and st = "initial_session ()" and query = "''go''"
        and cfg = cfg0, THEN conjunct1, THEN mp, OF a]
  obtain q where "runQuery tool_loop_env cfg0 (initial_session ()) ''go'' = (None, q)"
    by (elim exE conjE)
  then have r0: "fst (runQuery tool_loop_env cfg0 (initial_session ()) ''go'') = None"
    by simp
  show ?thesis
    by (rule conjI [OF a conjI [OF r0 conjI [OF e conjI [OF r1 r2]]]])
qed

text \<open>
  Claim C7. When a tool invocation of a response fails, the remaining blocks of the
  response are still processed and the round counts as one that used a tool; the
  conversation has gained the user turn \<^verbatim>\<open>Tool <name> error: <message>\<close>, the output
  the lines \<^verbatim>\<open>[Calling tool ...]\<close>, \<^verbatim>\<open>[Tool <name> failed: ...]\<close> and
  \<^verbatim>\<open>[Tool <name> error: ...]\<close>; the loop goes on to ask the model again with that
  conversation, and when the backend itself never throws the query ends without error.
\<close>

theorem tool_failure_recorded:
  assumes pre: "foldl (processBlock env) (False, q) pre = (u1, q1)"
    and fail: "callTool env (world (sess q1)) toolName toolArgs = (Inl toolErr, w)"
    and lt: "safety < 5"
  shows "\<exists>q2 ms ps.
           processBlocks env q (pre @ ToolUse toolName toolArgs # post) = (True, q2)
         \<and> messages q2 = messages q1 @ error_turn toolName toolErr # ms
         \<and> finalParts q2 = finalParts q1 @
             calling_line env toolName toolArgs # failed_line toolName toolErr #
             error_line toolName toolErr # ps
         \<and> rounds env chosen maxTokens safety q (pre @ ToolUse toolName toolArgs # post) =
             (case runAnthropic env (sess q2) (messages q2) chosen maxTokens of
                (Inl err, st) \<Rightarrow> (Some err, q2\<lparr>sess := st\<rparr>)
              | (Inr response', st) \<Rightarrow>
                  rounds env chosen maxTokens (safety + 1) (q2\<lparr>sess := st\<rparr>) response')
         \<and> (backend_answers env \<longrightarrow>
              fst (rounds env chosen maxTokens safety q (pre @ ToolUse toolName toolArgs # post)) = None)"
proof -
  let ?r = "pre @ ToolUse toolName toolArgs # post"
  let ?q' = "q1\<lparr>messages := messages q1 @ [error_turn toolName toolErr],
                finalParts := finalParts q1 @
                  [calling_line env toolName toolArgs, failed_line toolName toolErr,
                   error_line toolName toolErr],
                sess := (sess q1)\<lparr>world := w\<rparr>\<rparr>"
  have step: "processBlock env (u1, q1) (ToolUse toolName toolArgs) = (True, ?q')"
    using fail by simp
  have run: "processBlocks env q ?r = foldl (processBlock env) (True, ?q') post"
    using pre step by (simp add: processBlocks_def)
  have "fst (processBlocks env q ?r) = True"
    using foldl_processBlock_flag [of env ?q' post] run by simp
  then obtain q2 where q2: "processBlocks env q ?r = (True, q2)"
    by (cases "processBlocks env q ?r") auto
  have fq: "foldl (processBlock env) (True, ?q') post = (True, q2)"
    using run q2 by simp
  obtain ms ps
    where "messages q2 = messages ?q' @ ms" and "finalParts q2 = finalParts ?q' @ ps"
    using foldl_processBlock_extends [of env True ?q' post] unfolding fq by auto
  then have m: "messages q2 = messages q1 @ error_turn toolName toolErr # ms"
    and p: "finalParts q2 = finalParts q1 @
             calling_line env toolName toolArgs # failed_line toolName toolErr #
             error_line toolName toolErr # ps"
    by simp_all
  have r: "rounds env chosen maxTokens safety q ?r =
             (case runAnthropic env (sess q2) (messages q2) chosen maxTokens of
                (Inl err, st) \<Rightarrow> (Some err, q2\<lparr>sess := st\<rparr>)
              | (Inr response', st) \<Rightarrow>
                  rounds env chosen maxTokens (safety + 1) (q2\<lparr>sess := st\<rparr>) response')"
    using lt q2 by (rule rounds_next)
  have n: "backend_answers env \<longrightarrow> fst (rounds env chosen maxTokens safety q ?r) = None"
    using rounds_no_error [of env _ safety chosen maxTokens q ?r] by blast
  from q2 m p r n show ?thesis by blast
qed



theorem tool_failure_recorded_witness:
  "backend_answers failing_env
   \<and> fst (processBlocks failing_env (q_start ''q'') [TextBlock ''hm'', ToolUse ''t'' Null, TextBlock ''wait'']) = True
   \<and> fst (rounds failing_env (chosenModel cfg0) 1000 0 (q_start ''q'')
            [TextBlock ''hm'', ToolUse ''t'' Null, TextBlock ''wait'']) = None
   \<and> runQuery failing_env cfg0 (initial_session ()) ''q'' =
       (None,
        \<lparr>messages = [Message ''user'' (Some ''q''),
                     Message ''user'' (Some ''Tool t error: connection refused'')],
         finalParts = [''hm'', ''[Calling tool t args=null]'', ''[Tool t failed: connection refused]'',
                       ''[Tool t error: connection refused]'', ''wait'', ''sorry''],
         sess = \<lparr>failedModels = [], world = (),
                  requested = [''claude-3-5-sonnet-20241022'', ''claude-3-5-sonnet-20241022'']\<rparr>\<rparr>)"
proof -
  let ?mid = "(q_start ''q'')\<lparr>finalParts := [''hm'']\<rparr>"
  have b: "backend_answers failing_env"
    by (simp add: backend_answers_def failing_env_def scripted_def)
  have h1: "foldl (processBlock failing_env) (False, q_start ''q'') [TextBlock ''hm''] = (False, ?mid)"
    by (simp add: q_start_def)
  have h2: "callTool failing_env (world (sess ?mid)) ''t'' Null =
              (Inl (new_Error ''connection refused''), ())"
    by (simp add: failing_env_def scripted_def)
  have h3: "(0::nat) < 5"
    by simp
  have run: "runQuery failing_env cfg0 (initial_session ()) ''q'' =
       (None,
        \<lparr>messages = [Message ''user'' (Some ''q''),
                     Message ''user'' (Some ''Tool t error: connection refused'')],
         finalParts = [''hm'', ''[Calling tool t args=null]'', ''[Tool t failed: connection refused]'',
                       ''[Tool t error: connection refused]'', ''wait'', ''sorry''],
         sess = \<lparr>failedModels = [], world = (),
                  requested = [''claude-3-5-sonnet-20241022'', ''claude-3-5-sonnet-20241022'']\<rparr>\<rparr>)"
    by code_simp
  from tool_failure_recorded [OF h1 h2 h3, of "[TextBlock ''wait'']" "chosenModel cfg0" 1000] b
  have "fst (processBlocks failing_env (q_start ''q'') [TextBlock ''hm'', ToolUse ''t'' Null, TextBlock ''wait'']) = True"
    and "fst (rounds failing_env (chosenModel cfg0) 1000 0 (q_start ''q'')
            [TextBlock ''hm'', ToolUse ''t'' Null, TextBlock ''wait'']) = None"
    by auto
  with b run show ?thesis by blast
qed

text \<open>
  Claim C8. After a successful tool call the output gains the line
  \<^verbatim>\<open>[Tool <name> result: <preview>]\<close>, where the preview of a flattened text (white space
  collapsed, trimmed) longer than 50 is its first 50 characters followed by \<^verbatim>\<open>...\<close>,
  and the preview of one of at most 50 characters is the text itself.
\<close>

theorem preview_truncation:
  assumes "callTool env (world (sess q)) toolName toolArgs = (Inr c, w)"
  shows "(50 < length (singleLine env c) \<longrightarrow>
            finalParts (snd (processBlock env (u, q) (ToolUse toolName toolArgs))) =
              finalParts q @ [calling_line env toolName toolArgs,
                ''[Tool '' @ toolName @ '' result: '' @ take 50 (singleLine env c) @ ''...'' @ '']''])
       \<and> (length (singleLine env c) \<le> 50 \<longrightarrow>
            finalParts (snd (processBlock env (u, q) (ToolUse toolName toolArgs))) =
              finalParts q @ [calling_line env toolName toolArgs,
                ''[Tool '' @ toolName @ '' result: '' @ singleLine env c @ '']''])"
  using assms by (simp add: result_line_def preview_def)


theorem preview_truncation_witness:
  "finalParts (snd (processBlock long_env (False, q_start ''q'') (ToolUse ''t'' Null))) =
     [''[Calling tool t args=null]'',
      ''[Tool t result: The quick brown fox jumps over the lazy dog and ke...]'']
   \<and> finalParts (snd (processBlock tool_loop_env (False, q_start ''q'') (ToolUse ''t'' Null))) =
     [''[Calling tool t args=null]'', ''[Tool t result: ok]'']"
proof -
  have h1: "callTool long_env (world (sess (q_start ''q''))) ''t'' Null = (Inr (Str long_text), ())"
    by (simp add: long_env_def scripted_def)
  have h2: "callTool tool_loop_env (world (sess (q_start ''q''))) ''t'' Null = (Inr (Str ''ok''), ())"
    by (simp add: tool_loop_env_def scripted_def)
  have l1: "singleLine long_env (Str long_text) =
              ''The quick brown fox jumps over the lazy dog and keeps on running''"
    by code_simp
  have l2: "singleLine tool_loop_env (Str ''ok'') = ''ok''"
    by code_simp
  have c1: "calling_line long_env ''t'' Null = ''[Calling tool t args=null]''"
    by code_simp
  have c2: "calling_line tool_loop_env ''t'' Null = ''[Calling tool t args=null]''"
    by code_simp
  have f: "finalParts (q_start ''q'') = []"
    by (simp add: q_start_def)
  show ?thesis
    using preview_truncation [OF h1, of False] preview_truncation [OF h2, of False]
    by (simp add: l1 l2 c1 c2 f)
qed

section \<open>Properties of the model gateway\<close>

lemma set_first_occurrences: "set (first_occurrences arr) \<subseteq> set arr"
  by (auto simp: first_occurrences_def in_set_enumerate_eq)

lemma set_set_add: "set (set_add m s) = insert m (set s)"
  by (auto simp: set_add_def)

lemma next_candidate_fresh:
  assumes "next_candidate model (set_add model failed) = Some n"
  shows "n \<in> set DEFAULT_MODEL_CANDIDATES" and "n \<noteq> model" and "n \<notin> set failed"
proof -
  from assms have "n \<in> set (rotation model)" and "n \<notin> set (set_add model failed)"
    by (auto simp: next_candidate_def find_Some_iff)
  moreover have "set (rotation model) \<subseteq> insert model (set DEFAULT_MODEL_CANDIDATES)"
    using set_first_occurrences [of "model # DEFAULT_MODEL_CANDIDATES"]
    by (simp add: rotation_def)
  ultimately show "n \<in> set DEFAULT_MODEL_CANDIDATES" and "n \<noteq> model" and "n \<notin> set failed"
    by (auto simp: set_set_add)
qed

lemma distinct_defaults: "distinct DEFAULT_MODEL_CANDIDATES"
  by (simp add: DEFAULT_MODEL_CANDIDATES_def)

lemma defaults_nonempty: "n \<in> set DEFAULT_MODEL_CANDIDATES \<Longrightarrow> n \<noteq> []"
  by (auto simp: DEFAULT_MODEL_CANDIDATES_def)

lemma rotation_eq: "rotation model = model # filter (\<lambda>d. d \<noteq> model) DEFAULT_MODEL_CANDIDATES"
  by (simp add: rotation_def first_occurrences_def DEFAULT_MODEL_CANDIDATES_def enumerate_eq_zip upt_rec)

lemma find_filter_head: "find P xs = (case filter P xs of [] \<Rightarrow> None | x # _ \<Rightarrow> Some x)"
  by (induction xs) auto

lemma next_candidate_untried:
  "next_candidate model (set_add model failed) =
     (case untried failed model of [] \<Rightarrow> None | n # _ \<Rightarrow> Some n)"
proof -
  have "filter (\<lambda>m. m \<notin> set (set_add model failed)) (rotation model) = untried failed model"
    by (auto simp: rotation_eq untried_def set_set_add intro: filter_cong)
  then show ?thesis
    by (simp add: next_candidate_def find_filter_head)
qed

lemma untried_step:
  assumes "untried failed model = n # ns"
  shows "untried (set_add model failed) n = ns"
proof -
  have d: "distinct (untried failed model)"
    by (simp add: untried_def distinct_defaults)
  have "untried (set_add model failed) n = filter (\<lambda>d. d \<noteq> n) (untried failed model)"
    by (auto simp: untried_def set_set_add intro: filter_cong)
  also have "\<dots> = ns"
    using d unfolding assms by (auto simp: filter_id_conv)
  finally show ?thesis .
qed

lemma untried_in_defaults: "untried failed model = n # ns \<Longrightarrow> n \<in> set DEFAULT_MODEL_CANDIDATES"
  by (metis filter_is_subset list.set_intros(1) subsetD untried_def)

lemma runAnthropic_rejected:
  assumes "create env (world st) model maxTokens msgs = (Inl err, w)"
    and "err_type err = Some ''not_found_error''"
  shows "runAnthropic env st msgs model maxTokens =
     (case untried (failedModels st) model of
        [] \<Rightarrow>
          (Inl (new_Error (unavailable_message (set_add model (failedModels st)))),
           st\<lparr>failedModels := set_add model (failedModels st), world := w,
               requested := requested st @ [model]\<rparr>)
      | n # ns \<Rightarrow>
          runAnthropic env
            (st\<lparr>failedModels := set_add model (failedModels st), world := w,
                requested := requested st @ [model]\<rparr>)
            msgs n maxTokens)"
proof (cases "untried (failedModels st) model")
  case Nil
  with assms show ?thesis
    by (subst runAnthropic.simps) (simp add: next_candidate_untried)
next
  case (Cons n ns)
  then have "n \<noteq> []"
    using untried_in_defaults defaults_nonempty by blast
  with assms Cons show ?thesis
    by (subst runAnthropic.simps) (simp add: next_candidate_untried)
qed

lemma runAnthropic_other_error:
  assumes "create env (world st) model maxTokens msgs = (Inl err, w)"
    and "err_type err \<noteq> Some ''not_found_error''"
  shows "runAnthropic env st msgs model maxTokens =
           (Inl err, st\<lparr>world := w, requested := requested st @ [model]\<rparr>)"
  using assms by (subst runAnthropic.simps) simp

lemma runAnthropic_fallback:
  assumes "\<forall>x \<in> set rej. rejects env x" and "accepts env acc"
  shows "model # untried (failedModels st) model = rej @ acc # rest \<Longrightarrow>
     \<exists>response st'.
        runAnthropic env st msgs model maxTokens = (Inr response, st')
      \<and> failedModels st' = fold set_add rej (failedModels st)
      \<and> requested st' = requested st @ rej @ [acc]
      \<and> (\<exists>w w'. create env w acc maxTokens msgs = (Inr response, w'))"
  using assms(1)
proof (induction rej arbitrary: model st)
  case Nil
  then have m: "model = acc" by simp
  obtain response w where c: "create env (world st) acc maxTokens msgs = (Inr response, w)"
    using assms(2) unfolding accepts_def by blast
  show ?case
    using runAnthropic_accepts [OF c] c unfolding m by auto
next
  case (Cons x xs)
  from Cons.prems(1) have m: "model = x" and u: "untried (failedModels st) x = xs @ acc # rest"
    by auto
  obtain err w where c: "create env (world st) x maxTokens msgs = (Inl err, w)"
    and t: "err_type err = Some ''not_found_error''"
    using Cons.prems(2) unfolding rejects_def by (meson list.set_intros(1))
  have "untried (failedModels st) x \<noteq> []"
    using u by simp
  then obtain n ns where ns: "untried (failedModels st) x = n # ns"
    by (cases "untried (failedModels st) x") auto
  let ?st = "st\<lparr>failedModels := set_add x (failedModels st), world := w,
                requested := requested st @ [x]\<rparr>"
  have run: "runAnthropic env st msgs x maxTokens = runAnthropic env ?st msgs n maxTokens"
    using runAnthropic_rejected [OF c t] ns by simp
  have "untried (failedModels ?st) n = ns"
    using untried_step [OF ns] by simp
  then have "n # untried (failedModels ?st) n = xs @ acc # rest"
    using ns u by simp
  from Cons.IH [OF this] Cons.prems(2) obtain response st' where
    "runAnthropic env ?st msgs n maxTokens = (Inr response, st')"
    "failedModels st' = fold set_add xs (failedModels ?st)"
    "requested st' = requested ?st @ xs @ [acc]"
    "\<exists>w w'. create env w acc maxTokens msgs = (Inr response, w')"
    by auto
  then show ?case
    unfolding m run by auto
qed

lemma runAnthropic_exhausted:
  "us = untried (failedModels st) model \<Longrightarrow> \<forall>x \<in> set (model # us). rejects env x \<Longrightarrow>
     \<exists>st'.
        runAnthropic env st msgs model maxTokens =
          (Inl (new_Error (unavailable_message (failedModels st'))), st')
      \<and> failedModels st' = fold set_add (model # us) (failedModels st)
      \<and> requested st' = requested st @ model # us"
proof (induction us arbitrary: model st)
  case Nil
  obtain err w where c: "create env (world st) model maxTokens msgs = (Inl err, w)"
    and t: "err_type err = Some ''not_found_error''"
    using Nil.prems(2) unfolding rejects_def by (meson list.set_intros(1))
  show ?case
    using runAnthropic_rejected [OF c t] Nil.prems(1) [symmetric] by simp
next
  case (Cons n ns)
  obtain err w where c: "create env (world st) model maxTokens msgs = (Inl err, w)"
    and t: "err_type err = Some ''not_found_error''"
    using Cons.prems(2) unfolding rejects_def by (meson list.set_intros(1))
  let ?st = "st\<lparr>failedModels := set_add model (failedModels st), world := w,
                requested := requested st @ [model]\<rparr>"
  have u: "untried (failedModels st) model = n # ns"
    using Cons.prems(1) by simp
  have run: "runAnthropic env st msgs model maxTokens = runAnthropic env ?st msgs n maxTokens"
    using runAnthropic_rejected [OF c t] u by simp
  have "ns = untried (failedModels ?st) n"
    using untried_step [OF u] by simp
  moreover have "\<forall>x \<in> set (n # ns). rejects env x"
    using Cons.prems(2) by simp
  ultimately obtain st' where
    "runAnthropic env ?st msgs n maxTokens =
       (Inl (new_Error (unavailable_message (failedModels st'))), st')"
    "failedModels st' = fold set_add (n # ns) (failedModels ?st)"
    "requested st' = requested ?st @ n # ns"
    using Cons.IH [of ?st n] by auto
  then show ?case
    unfolding run by auto
qed


lemma distinct_candidates: "distinct (model # untried failed model)"
  by (simp add: untried_def distinct_defaults)

lemma untried_fresh: "set (untried failed model) \<inter> set failed = {}"
  by (auto simp: untried_def)

lemma set_fold_set_add: "set (fold set_add xs s) = set s \<union> set xs"
  by (induction xs arbitrary: s) (auto simp: set_set_add)

lemma runAnthropic_trace:
  "us = untried (failedModels st) model \<Longrightarrow>
     \<exists>tried rest.
        requested (snd (runAnthropic env st msgs model maxTokens)) = requested st @ model # tried
      \<and> us = tried @ rest
      \<and> set (failedModels st) \<subseteq> set (failedModels (snd (runAnthropic env st msgs model maxTokens)))
      \<and> set (failedModels (snd (runAnthropic env st msgs model maxTokens)))
            \<subseteq> set (failedModels st) \<union> set (model # tried)"
proof (induction us arbitrary: model st)
  case Nil
  obtain res w where c: "create env (world st) model maxTokens msgs = (res, w)"
    by (cases "create env (world st) model maxTokens msgs")
  show ?case
  proof (cases res)
    case (Inr response)
    with c runAnthropic_accepts [of env st model maxTokens msgs response w] show ?thesis
      by auto
  next
    case (Inl err)
    show ?thesis
    proof (cases "err_type err = Some ''not_found_error''")
      case True
      with c Inl runAnthropic_rejected [of env st model maxTokens msgs err w] Nil.prems [symmetric]
      show ?thesis by (auto simp: set_set_add)
    next
      case False
      with c Inl runAnthropic_other_error [of env st model maxTokens msgs err w] show ?thesis
        by auto
    qed
  qed
next
  case (Cons n ns)
  obtain res w where c: "create env (world st) model maxTokens msgs = (res, w)"
    by (cases "create env (world st) model maxTokens msgs")
  show ?case
  proof (cases res)
    case (Inr response)
    with c runAnthropic_accepts [of env st model maxTokens msgs response w] show ?thesis
      by - (rule exI [of _ "[]"], auto)
  next
    case (Inl err)
    show ?thesis
    proof (cases "err_type err = Some ''not_found_error''")
      case False
      with c Inl runAnthropic_other_error [of env st model maxTokens msgs err w] show ?thesis
        by - (rule exI [of _ "[]"], auto)
    next
      case True
      let ?st = "st\<lparr>failedModels := set_add model (failedModels st), world := w,
                    requested := requested st @ [model]\<rparr>"
      have u: "untried (failedModels st) model = n # ns"
        using Cons.prems by simp
      have run: "runAnthropic env st msgs model maxTokens = runAnthropic env ?st msgs n maxTokens"
        using runAnthropic_rejected [of env st model maxTokens msgs err w] c Inl True u by simp
      have "ns = untried (failedModels ?st) n"
        using untried_step [OF u] by simp
      from Cons.IH [OF this] obtain tried rest where
        t: "requested (snd (runAnthropic env ?st msgs n maxTokens)) = requested ?st @ n # tried"
          "ns = tried @ rest"
          "set (failedModels ?st) \<subseteq> set (failedModels (snd (runAnthropic env ?st msgs n maxTokens)))"
          "set (failedModels (snd (runAnthropic env ?st msgs n maxTokens)))
             \<subseteq> set (failedModels ?st) \<union> set (n # tried)"
        by blast
      have "requested (snd (runAnthropic env st msgs model maxTokens)) =
              requested st @ model # (n # tried)"
        using t(1) unfolding run by simp
      moreover have "n # ns = (n # tried) @ rest"
        using t(2) by simp
      moreover have "set (failedModels st)
          \<subseteq> set (failedModels (snd (runAnthropic env st msgs model maxTokens)))"
        using t(3) unfolding run by (auto simp: set_set_add)
      moreover have "set (failedModels (snd (runAnthropic env st msgs model maxTokens)))
          \<subseteq> set (failedModels st) \<union> set (model # n # tried)"
        using t(4) unfolding run by (auto simp: set_set_add)
      ultimately show ?thesis by blast
    qed
  qed
qed

lemma runAnthropic_failed_mono:
  "set (failedModels st) \<subseteq> set (failedModels (snd (runAnthropic env st msgs model maxTokens)))"
  using runAnthropic_trace [OF refl, of env st msgs model maxTokens] by blast

lemma processBlocks_failed:
  "failedModels (sess (snd (processBlocks env q response))) = failedModels (sess q)"
  using foldl_processBlock_closure [of env False q response] by (simp add: processBlocks_def)

lemma rounds_failed_mono:
  "n = 5 - safety \<Longrightarrow>
     set (failedModels (sess q))
       \<subseteq> set (failedModels (sess (snd (rounds env chosen maxTokens safety q response))))"
proof (induction n arbitrary: safety q response)
  case 0
  then show ?case by (simp add: rounds_cap)
next
  case (Suc n)
  then have lt: "safety < 5" and n: "n = 5 - (safety + 1)" by simp_all
  obtain u q1 where p: "processBlocks env q response = (u, q1)"
    by (cases "processBlocks env q response")
  have f: "failedModels (sess q1) = failedModels (sess q)"
    using processBlocks_failed [of env q response] p by simp
  show ?case
  proof (cases u)
    case False
    with lt p f show ?thesis
      using rounds_converged [of safety env q response chosen maxTokens] by simp
  next
    case True
    obtain res st where r: "runAnthropic env (sess q1) (messages q1) chosen maxTokens = (res, st)"
      by (cases "runAnthropic env (sess q1) (messages q1) chosen maxTokens")
    have m: "set (failedModels (sess q)) \<subseteq> set (failedModels st)"
      using runAnthropic_failed_mono [of "sess q1" env "messages q1" chosen maxTokens] r f by simp
    show ?thesis
    proof (cases res)
      case (Inl err)
      with lt p True r m show ?thesis
        using rounds_next [of safety env q response q1 chosen maxTokens] by simp
    next
      case (Inr response')
      have "rounds env chosen maxTokens safety q response =
              rounds env chosen maxTokens (safety + 1) (q1\<lparr>sess := st\<rparr>) response'"
        using lt p True r Inr rounds_next [of safety env q response q1 chosen maxTokens] by simp
      with Suc.IH [OF n, of "q1\<lparr>sess := st\<rparr>" response'] m show ?thesis
        by auto
    qed
  qed
qed

lemma processQuery_failed_mono:
  "set (failedModels st) \<subseteq> set (failedModels (snd (processQuery env cfg st query)))"
proof -
  let ?msgs = "[Message ''user'' (Some query)]"
  obtain res st1 where r: "runAnthropic env st ?msgs (chosenModel cfg) (max_tokens cfg) = (res, st1)"
    by (cases "runAnthropic env st ?msgs (chosenModel cfg) (max_tokens cfg)")
  have m: "set (failedModels st) \<subseteq> set (failedModels st1)"
    using runAnthropic_failed_mono [of st env ?msgs "chosenModel cfg" "max_tokens cfg"] r by simp
  show ?thesis
  proof (cases res)
    case (Inl err)
    with r m show ?thesis
      by (simp add: processQuery_def runQuery_def)
  next
    case (Inr response)
    let ?start = "\<lparr>messages = ?msgs, finalParts = [], sess = st1\<rparr>"
    have "snd (processQuery env cfg st query) =
            sess (snd (rounds env (chosenModel cfg) (max_tokens cfg) 0 ?start response))"
      using r Inr by (simp add: processQuery_def runQuery_def split: prod.splits option.splits)
    with rounds_failed_mono [of 5 0 ?start env "chosenModel cfg" "max_tokens cfg" response] m
    show ?thesis by auto
  qed
qed

lemma console_loop_failed_mono:
  "set (failedModels st) \<subseteq> set (failedModels (fst (snd (console_loop env cfg st lines))))"
proof (induction lines arbitrary: st)
  case Nil
  show ?case by simp
next
  case (Cons line lines)
  show ?case
  proof (cases "map to_lower (trim line) = ''exit'' \<or> trim line = []")
    case True
    with Cons.IH [of st] show ?thesis by (auto simp: Let_def)
  next
    case False
    obtain res w where l: "listTools env (world st) = (res, w)"
      by (cases "listTools env (world st)")
    show ?thesis
    proof (cases res)
      case (Inl err)
      with False l show ?thesis by (simp add: Let_def)
    next
      case (Inr u)
      obtain r st' where p: "processQuery env cfg (st\<lparr>world := w\<rparr>) (trim line) = (r, st')"
        by (cases "processQuery env cfg (st\<lparr>world := w\<rparr>) (trim line)")
      have "set (failedModels st) \<subseteq> set (failedModels st')"
        using processQuery_failed_mono [of "st\<lparr>world := w\<rparr>" env cfg "trim line"] p by simp
      with Cons.IH [of st'] False l Inr p show ?thesis
        by (auto simp: Let_def split: prod.splits)
    qed
  qed
qed

lemma untried_subset_rotation: "set (model # untried failed model) \<subseteq> set (rotation model)"
  by (auto simp: untried_def rotation_eq)

lemma untried_empty_failed: "model # untried [] model = rotation model"
  by (simp add: untried_def rotation_eq)

lemma rotation_covered: "set (rotation model) \<subseteq> set failed \<union> set (model # untried failed model)"
  by (auto simp: untried_def rotation_eq)

lemma runAnthropic_requested:
  "\<exists>tried. requested (snd (runAnthropic env st msgs model maxTokens)) = requested st @ model # tried
     \<and> set tried \<subseteq> set (rotation model)"
proof -
  from runAnthropic_trace [OF refl, of env st msgs model maxTokens] obtain tried rest where
    1: "requested (snd (runAnthropic env st msgs model maxTokens)) = requested st @ model # tried"
    and 2: "untried (failedModels st) model = tried @ rest"
    by blast
  have "set tried \<subseteq> set (rotation model)"
    using untried_subset_rotation [of model "failedModels st"] unfolding 2 by auto
  with 1 show ?thesis by blast
qed

lemma processBlocks_requested:
  "requested (sess (snd (processBlocks env q response))) = requested (sess q)"
  using foldl_processBlock_closure [of env False q response] by (simp add: processBlocks_def)

lemma rounds_requested:
  "n = 5 - safety \<Longrightarrow>
     \<exists>more. requested (sess (snd (rounds env chosen maxTokens safety q response))) =
               requested (sess q) @ more
           \<and> set more \<subseteq> set (rotation chosen)"
proof (induction n arbitrary: safety q response)
  case 0
  then show ?case by (simp add: rounds_cap)
next
  case (Suc n)
  then have lt: "safety < 5" and n: "n = 5 - (safety + 1)" by simp_all
  obtain u q1 where p: "processBlocks env q response = (u, q1)"
    by (cases "processBlocks env q response")
  have f: "requested (sess q1) = requested (sess q)"
    using processBlocks_requested [of env q response] p by simp
  show ?case
  proof (cases u)
    case False
    with lt p f show ?thesis
      using rounds_converged [of safety env q response chosen maxTokens] by simp
  next
    case True
    obtain res st where r: "runAnthropic env (sess q1) (messages q1) chosen maxTokens = (res, st)"
      by (cases "runAnthropic env (sess q1) (messages q1) chosen maxTokens")
    from runAnthropic_requested [of env "sess q1" "messages q1" chosen maxTokens] r f
    obtain tried where t: "requested st = requested (sess q) @ chosen # tried"
      and ts: "set tried \<subseteq> set (rotation chosen)"
      by auto
    have c: "chosen \<in> set (rotation chosen)"
      by (simp add: rotation_eq)
    show ?thesis
    proof (cases res)
      case (Inl err)
      with lt p True r t ts c show ?thesis
        using rounds_next [of safety env q response q1 chosen maxTokens] by simp
    next
      case (Inr response')
      have e: "rounds env chosen maxTokens safety q response =
              rounds env chosen maxTokens (safety + 1) (q1\<lparr>sess := st\<rparr>) response'"
        using lt p True r Inr rounds_next [of safety env q response q1 chosen maxTokens] by simp
      from Suc.IH [OF n, of "q1\<lparr>sess := st\<rparr>" response'] obtain more where
        "requested (sess (snd (rounds env chosen maxTokens (safety + 1) (q1\<lparr>sess := st\<rparr>) response'))) =
           requested st @ more" and "set more \<subseteq> set (rotation chosen)"
        by auto
      with t ts c show ?thesis
        unfolding e by (intro exI [of _ "chosen # tried @ more"]) simp
    qed
  qed
qed

lemma processQuery_requested:
  "\<exists>more. requested (snd (processQuery env cfg st query)) = requested st @ chosenModel cfg # more
     \<and> set more \<subseteq> set (rotation (chosenModel cfg))"
proof -
  let ?msgs = "[Message ''user'' (Some query)]"
  obtain res st1 where r: "runAnthropic env st ?msgs (chosenModel cfg) (max_tokens cfg) = (res, st1)"
    by (cases "runAnthropic env st ?msgs (chosenModel cfg) (max_tokens cfg)")
  from runAnthropic_requested [of env st ?msgs "chosenModel cfg" "max_tokens cfg"] r
  obtain tried where t: "requested st1 = requested st @ chosenModel cfg # tried"
    and ts: "set tried \<subseteq> set (rotation (chosenModel cfg))"
    by auto
  show ?thesis
  proof (cases res)
    case (Inl err)
    with r t ts show ?thesis
      by (simp add: processQuery_def runQuery_def)
  next
    case (Inr response)
    let ?start = "\<lparr>messages = ?msgs, finalParts = [], sess = st1\<rparr>"
    have e: "snd (processQuery env cfg st query) =
            sess (snd (rounds env (chosenModel cfg) (max_tokens cfg) 0 ?start response))"
      using r Inr by (simp add: processQuery_def runQuery_def split: prod.splits option.splits)
    from rounds_requested [of 5 0 env "chosenModel cfg" "max_tokens cfg" ?start response]
    obtain more where "requested (snd (processQuery env cfg st query)) = requested st1 @ more"
      and "set more \<subseteq> set (rotation (chosenModel cfg))"
      unfolding e by auto
    with t ts show ?thesis
      by (intro exI [of _ "tried @ more"]) simp
  qed
qed

text \<open>
  Claim C3, as amended. A call of \<^const>\<open>runAnthropic\<close> entered with an empty exhausted set,
  whose candidate list (the starting model followed by the built-in chain, first
  occurrences only) begins with models the backend rejects as not found, followed by one it
  answers, returns a response of that model; afterwards the exhausted set holds exactly the
  rejected models, and the rejected models and the answering one have been requested
  once each, in list order. In every call, whatever the exhausted set, the starting
  model is requested first, no model is requested twice, and the others requested are
  built-in candidates that were not exhausted when the call began. The starting model
  of a query is the explicit override when there is one, else the configured default
  when there is one, else the first built-in candidate; a query requests it first, and
  every model it requests is on the candidate list of that starting model.
\<close>

theorem fallback_first_accepted:
  "(failedModels st = [] \<and> rotation model = rej @ acc # rest \<and>
      (\<forall>x \<in> set rej. rejects env x) \<and> accepts env acc \<longrightarrow>
      (\<exists>response st'.
          runAnthropic env st msgs model maxTokens = (Inr response, st')
        \<and> (\<exists>w w'. create env w acc maxTokens msgs = (Inr response, w'))
        \<and> set (failedModels st') = set rej
        \<and> requested st' = requested st @ rej @ [acc]
        \<and> distinct (rej @ [acc])))
   \<and> (\<exists>tried.
          requested (snd (runAnthropic env st msgs model maxTokens)) = requested st @ model # tried
        \<and> distinct (model # tried)
        \<and> set tried \<inter> set (failedModels st) = {}
        \<and> set tried \<subseteq> set DEFAULT_MODEL_CANDIDATES)
   \<and> rotation model = model # filter (\<lambda>d. d \<noteq> model) DEFAULT_MODEL_CANDIDATES
   \<and> (opt_model cfg \<noteq> [] \<longrightarrow> chosenModel cfg = opt_model cfg)
   \<and> (opt_model cfg = [] \<and> env_model cfg = Some m \<and> m \<noteq> [] \<longrightarrow> chosenModel cfg = m)
   \<and> (opt_model cfg = [] \<and> (env_model cfg = None \<or> env_model cfg = Some []) \<longrightarrow>
         chosenModel cfg = ''claude-3-5-sonnet-20241022'')
   \<and> (\<exists>more.
          requested (snd (processQuery env cfg st query)) = requested st @ chosenModel cfg # more
        \<and> set more \<subseteq> set (rotation (chosenModel cfg)))"
proof (intro conjI impI)
  assume h: "failedModels st = [] \<and> rotation model = rej @ acc # rest \<and>
      (\<forall>x \<in> set rej. rejects env x) \<and> accepts env acc"
  then have u: "model # untried (failedModels st) model = rej @ acc # rest"
    by (simp add: untried_empty_failed)
  from h have r: "\<forall>x \<in> set rej. rejects env x" and a: "accepts env acc"
    by simp_all
  from runAnthropic_fallback [OF r a u, of msgs maxTokens] obtain response st' where
    1: "runAnthropic env st msgs model maxTokens = (Inr response, st')"
    and 2: "failedModels st' = fold set_add rej (failedModels st)"
    and 3: "requested st' = requested st @ rej @ [acc]"
    and 4: "\<exists>w w'. create env w acc maxTokens msgs = (Inr response, w')"
    by blast
  have 5: "set (failedModels st') = set rej"
    using 2 h by (simp add: set_fold_set_add)
  have "distinct (rej @ acc # rest)"
    using distinct_candidates [of model "failedModels st"] unfolding u .
  then have 6: "distinct (rej @ [acc])"
    by auto
  from 1 3 4 5 6 show "\<exists>response st'.
          runAnthropic env st msgs model maxTokens = (Inr response, st')
        \<and> (\<exists>w w'. create env w acc maxTokens msgs = (Inr response, w'))
        \<and> set (failedModels st') = set rej
        \<and> requested st' = requested st @ rej @ [acc]
        \<and> distinct (rej @ [acc])"
    by blast
next
  from runAnthropic_trace [OF refl, of env st msgs model maxTokens] obtain tried rest where
    1: "requested (snd (runAnthropic env st msgs model maxTokens)) = requested st @ model # tried"
    and 2: "untried (failedModels st) model = tried @ rest"
    by blast
  have "distinct (model # tried @ rest)"
    using distinct_candidates [of model "failedModels st"] unfolding 2 .
  then have 3: "distinct (model # tried)"
    by auto
  have 4: "set tried \<inter> set (failedModels st) = {}"
    using untried_fresh [of "failedModels st" model] unfolding 2 by auto
  have "set (tried @ rest) \<subseteq> set DEFAULT_MODEL_CANDIDATES"
    unfolding 2 [symmetric] by (auto simp: untried_def)
  then have 5: "set tried \<subseteq> set DEFAULT_MODEL_CANDIDATES"
    by simp
  from 1 3 4 5 show "\<exists>tried.
          requested (snd (runAnthropic env st msgs model maxTokens)) = requested st @ model # tried
        \<and> distinct (model # tried)
        \<and> set tried \<inter> set (failedModels st) = {}
        \<and> set tried \<subseteq> set DEFAULT_MODEL_CANDIDATES"
    by blast
next
  show "rotation model = model # filter (\<lambda>d. d \<noteq> model) DEFAULT_MODEL_CANDIDATES"
    by (rule rotation_eq)
next
  assume "opt_model cfg \<noteq> []"
  then show "chosenModel cfg = opt_model cfg"
    by (simp add: chosenModel_def)
next
  assume "opt_model cfg = [] \<and> env_model cfg = Some m \<and> m \<noteq> []"
  then show "chosenModel cfg = m"
    by (simp add: chosenModel_def)
next
  assume "opt_model cfg = [] \<and> (env_model cfg = None \<or> env_model cfg = Some [])"
  then show "chosenModel cfg = ''claude-3-5-sonnet-20241022''"
    by (auto simp: chosenModel_def DEFAULT_MODEL_CANDIDATES_def)
next
  show "\<exists>more.
          requested (snd (processQuery env cfg st query)) = requested st @ chosenModel cfg # more
        \<and> set more \<subseteq> set (rotation (chosenModel cfg))"
    by (rule processQuery_requested)
qed

lemma rejects_only_last:
  "model \<noteq> ''claude-3-5-sonnet-latest'' \<Longrightarrow> rejects only_last_env model"
  by (simp add: rejects_def only_last_env_def scripted_def not_found_def)

lemma accepts_only_last: "accepts only_last_env ''claude-3-5-sonnet-latest''"
  by (simp add: accepts_def only_last_env_def scripted_def)

theorem fallback_first_accepted_witness:
  "runAnthropic only_last_env (initial_session ()) [Message ''user'' (Some ''q'')]
       ''claude-3-5-sonnet-20241022'' 1000 =
     (Inr [TextBlock ''answer''],
      \<lparr>failedModels = [''claude-3-5-sonnet-20241022'', ''claude-sonnet-4-20250514''], world = (),
       requested = [''claude-3-5-sonnet-20241022'', ''claude-sonnet-4-20250514'',
                    ''claude-3-5-sonnet-latest'']\<rparr>)
   \<and> rotation ''claude-3-5-sonnet-20241022'' =
       [''claude-3-5-sonnet-20241022'', ''claude-sonnet-4-20250514''] @ ''claude-3-5-sonnet-latest'' # []
   \<and> rejects only_last_env ''claude-3-5-sonnet-20241022''
   \<and> rejects only_last_env ''claude-sonnet-4-20250514''
   \<and> accepts only_last_env ''claude-3-5-sonnet-latest''
   \<and> (\<exists>response st'.
          runAnthropic only_last_env (initial_session ()) [Message ''user'' (Some ''q'')]
            ''claude-3-5-sonnet-20241022'' 1000 = (Inr response, st')
        \<and> set (failedModels st') = {''claude-3-5-sonnet-20241022'', ''claude-sonnet-4-20250514''}
        \<and> requested st' = [''claude-3-5-sonnet-20241022'', ''claude-sonnet-4-20250514'',
                            ''claude-3-5-sonnet-latest''])
   \<and> chosenModel \<lparr>opt_model = ''my-model'', env_model = Some ''env-model'', max_tokens = 1000\<rparr> =
       ''my-model''
   \<and> chosenModel \<lparr>opt_model = [], env_model = Some ''env-model'', max_tokens = 1000\<rparr> =
       ''env-model''
   \<and> chosenModel \<lparr>opt_model = [], env_model = Some [], max_tokens = 1000\<rparr> =
       ''claude-3-5-sonnet-20241022''
   \<and> chosenModel cfg0 = ''claude-3-5-sonnet-20241022''
   \<and> requested (snd (processQuery only_last_env
          \<lparr>opt_model = ''my-model'', env_model = Some ''env-model'', max_tokens = 1000\<rparr>
          (initial_session ()) ''q'')) =
       [''my-model'', ''claude-3-5-sonnet-20241022'', ''claude-sonnet-4-20250514'',
        ''claude-3-5-sonnet-latest'']"
proof -
  let ?A = "''claude-3-5-sonnet-20241022''" and ?B = "''claude-sonnet-4-20250514''"
    and ?C = "''claude-3-5-sonnet-latest''"
  have e: "runAnthropic only_last_env (initial_session ()) [Message ''user'' (Some ''q'')] ?A 1000 =
     (Inr [TextBlock ''answer''],
      \<lparr>failedModels = [?A, ?B], world = (), requested = [?A, ?B, ?C]\<rparr>)"
    by code_simp
  have f: "failedModels (initial_session ()) = []"
    by (simp add: initial_session_def)
  have r: "rotation ?A = [?A, ?B] @ ?C # []"
    by (simp add: rotation_eq DEFAULT_MODEL_CANDIDATES_def)
  have a: "rejects only_last_env ?A" and b: "rejects only_last_env ?B"
    by (simp_all add: rejects_only_last)
  have ab: "\<forall>x \<in> set [?A, ?B]. rejects only_last_env x"
    using a b by simp
  note c = accepts_only_last
  have "\<exists>response st'.
          runAnthropic only_last_env (initial_session ()) [Message ''user'' (Some ''q'')] ?A 1000 =
            (Inr response, st')
        \<and> set (failedModels st') = {?A, ?B}
        \<and> requested st' = [?A, ?B, ?C]"
    using fallback_first_accepted [where st = "initial_session ()" and model = ?A
        and rej = "[?A, ?B]" and acc = ?C and rest = "[]" and env = only_last_env
        and msgs = "[Message ''user'' (Some ''q'')]" and maxTokens = 1000,
        THEN conjunct1, THEN mp, OF conjI [OF f conjI [OF r conjI [OF ab c]]]]
    by (auto simp: initial_session_def)
  note x = this
  let ?over = "\<lparr>opt_model = ''my-model'', env_model = Some ''env-model'', max_tokens = 1000\<rparr>"
  let ?conf = "\<lparr>opt_model = [], env_model = Some ''env-model'', max_tokens = 1000\<rparr>"
  let ?none = "\<lparr>opt_model = [], env_model = Some [], max_tokens = 1000\<rparr>"
  have m1: "chosenModel ?over = ''my-model''"
    using fallback_first_accepted [where cfg = ?over, THEN conjunct2, THEN conjunct2,
        THEN conjunct2, THEN conjunct1]
    by simp
  have m2: "chosenModel ?conf = ''env-model''"
    using fallback_first_accepted [where cfg = ?conf and m = "''env-model''", THEN conjunct2,
        THEN conjunct2, THEN conjunct2, THEN conjunct2, THEN conjunct1]
    by simp
  have m3: "chosenModel ?none = ''claude-3-5-sonnet-20241022''"
    using fallback_first_accepted [where cfg = ?none, THEN conjunct2, THEN conjunct2,
        THEN conjunct2, THEN conjunct2, THEN conjunct2, THEN conjunct1]
    by simp
  have m4: "chosenModel cfg0 = ''claude-3-5-sonnet-20241022''"
    using fallback_first_accepted [where cfg = cfg0, THEN conjunct2, THEN conjunct2,
        THEN conjunct2, THEN conjunct2, THEN conjunct2, THEN conjunct1]
    by (simp add: cfg0_def)
  have q: "requested (snd (processQuery only_last_env ?over (initial_session ()) ''q'')) =
       [''my-model'', ?A, ?B, ?C]"
    by code_simp
  from e r a b c x m1 m2 m3 m4 q show ?thesis
    by (intro conjI)
qed

theorem fallback_once_per_query_counterexample:
  "failedModels (initial_session ()) = []
   \<and> rotation (chosenModel cfg0) =
       [''claude-3-5-sonnet-20241022'', ''claude-sonnet-4-20250514'', ''claude-3-5-sonnet-latest'']
   \<and> rejects only_last_tool_env ''claude-3-5-sonnet-20241022''
   \<and> rejects only_last_tool_env ''claude-sonnet-4-20250514''
   \<and> accepts only_last_tool_env ''claude-3-5-sonnet-latest''
   \<and> requested (snd (processQuery only_last_tool_env cfg0 (initial_session ()) ''q'')) =
       [''claude-3-5-sonnet-20241022'', ''claude-sonnet-4-20250514'', ''claude-3-5-sonnet-latest'',
        ''claude-3-5-sonnet-20241022'', ''claude-3-5-sonnet-latest'']
   \<and> count_list (requested (snd (processQuery only_last_tool_env cfg0 (initial_session ()) ''q'')))
         ''claude-3-5-sonnet-20241022'' = 2"
proof -
  let ?A = "''claude-3-5-sonnet-20241022''" and ?B = "''claude-sonnet-4-20250514''"
    and ?C = "''claude-3-5-sonnet-latest''"
  have f: "failedModels (initial_session ()) = []"
    by (simp add: initial_session_def)
  have r: "rotation (chosenModel cfg0) = [?A, ?B, ?C]"
    by (simp add: rotation_eq DEFAULT_MODEL_CANDIDATES_def chosenModel_def cfg0_def)
  have a: "rejects only_last_tool_env ?A" and b: "rejects only_last_tool_env ?B"
    by (simp_all add: rejects_def only_last_tool_env_def scripted_def not_found_def)
  have c: "accepts only_last_tool_env ?C"
    by (simp add: accepts_def only_last_tool_env_def scripted_def)
  have e: "requested (snd (processQuery only_last_tool_env cfg0 (initial_session ()) ''q'')) =
             [?A, ?B, ?C, ?A, ?C]"
    by code_simp
  have n: "count_list (requested (snd (processQuery only_last_tool_env cfg0 (initial_session ()) ''q'')))
             ?A = 2"
    unfolding e by simp
  from f r a b c e n show ?thesis
    by (intro conjI)
qed


text \<open>
  Claim C4, as amended. When the backend rejects every candidate of the list as not found,
  \<^const>\<open>runAnthropic\<close> throws an \<^verbatim>\<open>Error\<close> whose message lists the exhausted set of
  the session: the models exhausted before the call together with those requested in it,
  which is the whole candidate list, each requested once, when the set was empty at the
  start. The console loop prints \<^verbatim>\<open>Error processing query:\<close> followed by the message
  of the error when it has one, and by the console's rendering of the thrown value
  when the message is empty; for the error above that is its message, the listed ids
  separated by a comma and a space. The loop then goes on with the next line, and a
  later query whose chosen model is answered succeeds whatever the exhausted set holds.
\<close>

theorem exhaustion_lists_failed_set:
  "((\<forall>x \<in> set (rotation model). rejects env x) \<longrightarrow>
      (\<exists>st' tried.
          runAnthropic env st msgs model maxTokens =
            (Inl (new_Error (unavailable_message (failedModels st'))), st')
        \<and> requested st' = requested st @ tried
        \<and> set (failedModels st') = set (failedModels st) \<union> set tried
        \<and> (failedModels st = [] \<longrightarrow>
              tried = rotation model \<and> set (failedModels st') = set tried)
        \<and> (set (failedModels st) \<subseteq> set (rotation model) \<longrightarrow>
              set (failedModels st') = set (rotation model))))
   \<and> (trim line \<noteq> [] \<and> map to_lower (trim line) \<noteq> ''exit'' \<and>
        listTools env (world st) = (Inr u, w) \<and>
        processQuery env cfg (st\<lparr>world := w\<rparr>) (trim line) = (Inl err, st2) \<longrightarrow>
        console_loop env cfg st (line # lines) =
          ((''Error processing query: '' @ console_arg env err) # fst (console_loop env cfg st2 lines),
           snd (console_loop env cfg st2 lines)))
   \<and> (create env (world st) (chosenModel cfg) (max_tokens cfg) [Message ''user'' (Some query)] =
          (Inr response, w) \<and> (\<forall>b \<in> set response. \<not> is_tool_use b) \<longrightarrow>
        processQuery env cfg st query =
          (Inr (join [CHR 0x0A] (concat (map block_text response))),
           st\<lparr>world := w, requested := requested st @ [chosenModel cfg]\<rparr>))
   \<and> console_arg env err = (if err_message err \<noteq> [] then err_message err else inspect env err)
   \<and> console_arg env (new_Error (unavailable_message (f # fs))) =
         ''All candidate models unavailable: '' @ f @ concat (map (\<lambda>m. '', '' @ m) fs)"
proof (intro conjI impI)
  assume r: "\<forall>x \<in> set (rotation model). rejects env x"
  let ?us = "untried (failedModels st) model"
  have "\<forall>x \<in> set (model # ?us). rejects env x"
    using r untried_subset_rotation [of model "failedModels st"] by blast
  from runAnthropic_exhausted [OF refl this, of msgs maxTokens] obtain st' where
    1: "runAnthropic env st msgs model maxTokens =
          (Inl (new_Error (unavailable_message (failedModels st'))), st')"
    and 2: "failedModels st' = fold set_add (model # ?us) (failedModels st)"
    and 3: "requested st' = requested st @ model # ?us"
    by blast
  have 4: "set (failedModels st') = set (failedModels st) \<union> set (model # ?us)"
    unfolding 2 by (simp only: set_fold_set_add)
  have 5: "failedModels st = [] \<longrightarrow>
             model # ?us = rotation model \<and> set (failedModels st') = set (model # ?us)"
  proof
    assume e: "failedModels st = []"
    then have "model # ?us = rotation model"
      by (simp add: untried_empty_failed)
    moreover have "set (failedModels st') = set (model # ?us)"
      using 4 e by simp
    ultimately show "model # ?us = rotation model \<and> set (failedModels st') = set (model # ?us)"
      by (rule conjI)
  qed
  have 6: "set (failedModels st) \<subseteq> set (rotation model) \<longrightarrow>
             set (failedModels st') = set (rotation model)"
    using 4 untried_subset_rotation [of model "failedModels st"]
      rotation_covered [of model "failedModels st"]
    by blast
  from 1 3 4 5 6 show "\<exists>st' tried.
          runAnthropic env st msgs model maxTokens =
            (Inl (new_Error (unavailable_message (failedModels st'))), st')
        \<and> requested st' = requested st @ tried
        \<and> set (failedModels st') = set (failedModels st) \<union> set tried
        \<and> (failedModels st = [] \<longrightarrow>
              tried = rotation model \<and> set (failedModels st') = set tried)
        \<and> (set (failedModels st) \<subseteq> set (rotation model) \<longrightarrow>
              set (failedModels st') = set (rotation model))"
    by blast
next
  assume "trim line \<noteq> [] \<and> map to_lower (trim line) \<noteq> ''exit'' \<and>
        listTools env (world st) = (Inr u, w) \<and>
        processQuery env cfg (st\<lparr>world := w\<rparr>) (trim line) = (Inl err, st2)"
  then show "console_loop env cfg st (line # lines) =
          ((''Error processing query: '' @ console_arg env err) # fst (console_loop env cfg st2 lines),
           snd (console_loop env cfg st2 lines))"
    by (cases "console_loop env cfg st2 lines") (simp add: Let_def)
next
  assume h: "create env (world st) (chosenModel cfg) (max_tokens cfg) [Message ''user'' (Some query)] =
          (Inr response, w) \<and> (\<forall>b \<in> set response. \<not> is_tool_use b)"
  let ?st = "st\<lparr>world := w, requested := requested st @ [chosenModel cfg]\<rparr>"
  let ?start = "\<lparr>messages = [Message ''user'' (Some query)], finalParts = [], sess = ?st\<rparr>"
  have run: "runAnthropic env st [Message ''user'' (Some query)] (chosenModel cfg) (max_tokens cfg) =
          (Inr response, ?st)"
    using h by (simp add: runAnthropic_accepts)
  have "rounds env (chosenModel cfg) (max_tokens cfg) 0 ?start response =
          (None, ?start\<lparr>finalParts := finalParts ?start @ concat (map block_text response)\<rparr>)"
    using h rounds_converged [of 0 env ?start response "chosenModel cfg" "max_tokens cfg"]
    by (simp add: processBlocks_def foldl_processBlock_no_tool)
  with run show "processQuery env cfg st query =
          (Inr (join [CHR 0x0A] (concat (map block_text response))), ?st)"
    by (simp add: processQuery_def runQuery_def)
next
  show "console_arg env err = (if err_message err \<noteq> [] then err_message err else inspect env err)"
    by (simp add: console_arg_def)
next
  have "join sep (part # parts) = part @ concat (map (\<lambda>p. sep @ p) parts)" for sep part parts
    by (induction parts arbitrary: part) simp_all
  then show "console_arg env (new_Error (unavailable_message (f # fs))) =
         ''All candidate models unavailable: '' @ f @ concat (map (\<lambda>m. '', '' @ m) fs)"
    by (simp add: console_arg_def new_Error_def unavailable_message_def)
qed

lemma rejects_reject_env: "rejects reject_env model"
  by (simp add: rejects_def reject_env_def scripted_def not_found_def)

theorem exhaustion_lists_failed_set_witness:
  "rejects reject_env ''claude-3-5-sonnet-20241022'' \<and> rejects reject_env ''claude-sonnet-4-20250514''
   \<and> rejects reject_env ''claude-3-5-sonnet-latest''
   \<and> (\<exists>st'.
         runAnthropic reject_env (initial_session ()) [Message ''user'' (Some ''q'')]
           ''claude-3-5-sonnet-20241022'' 1000 =
           (Inl (new_Error (unavailable_message (failedModels st'))), st')
       \<and> requested st' = rotation ''claude-3-5-sonnet-20241022''
       \<and> set (failedModels st') = set (rotation ''claude-3-5-sonnet-20241022''))
   \<and> console_loop reject_env cfg0 (initial_session ()) ['' q1'', ''q2 '', ''exit''] =
       ([''Error processing query: All candidate models unavailable: claude-3-5-sonnet-20241022, claude-sonnet-4-20250514, claude-3-5-sonnet-latest'',
         ''Error processing query: All candidate models unavailable: claude-3-5-sonnet-20241022, claude-sonnet-4-20250514, claude-3-5-sonnet-latest''],
        \<lparr>failedModels = [''claude-3-5-sonnet-20241022'', ''claude-sonnet-4-20250514'',
                         ''claude-3-5-sonnet-latest''], world = (),
         requested = [''claude-3-5-sonnet-20241022'', ''claude-sonnet-4-20250514'',
                      ''claude-3-5-sonnet-latest'', ''claude-3-5-sonnet-20241022'']\<rparr>,
        None)
   \<and> console_loop mute_env cfg0 (initial_session ()) [''q'', ''exit''] =
       ([''Error processing query: Error\<newline>    at <anonymous>''],
        \<lparr>failedModels = [], world = (), requested = [''claude-3-5-sonnet-20241022'']\<rparr>, None)
   \<and> processQuery direct_env cfg0
        \<lparr>failedModels = [''claude-3-5-sonnet-20241022'', ''claude-sonnet-4-20250514'',
                         ''claude-3-5-sonnet-latest''], world = (), requested = []\<rparr> ''q3'' =
       (Inr ''It has 4 tables.\<newline>Done.'',
        \<lparr>failedModels = [''claude-3-5-sonnet-20241022'', ''claude-sonnet-4-20250514'',
                         ''claude-3-5-sonnet-latest''], world = (),
         requested = [''claude-3-5-sonnet-20241022'']\<rparr>)"
proof -
  let ?A = "''claude-3-5-sonnet-20241022''" and ?B = "''claude-sonnet-4-20250514''"
    and ?C = "''claude-3-5-sonnet-latest''"
  let ?all = "\<lparr>failedModels = [?A, ?B, ?C], world = (), requested = []\<rparr>"
  let ?s1 = "\<lparr>failedModels = [?A, ?B, ?C], world = (), requested = [?A, ?B, ?C]\<rparr>"
  let ?s2 = "\<lparr>failedModels = [?A, ?B, ?C], world = (), requested = [?A, ?B, ?C, ?A]\<rparr>"
  let ?e = "new_Error (unavailable_message [?A, ?B, ?C])"
  have h: "\<forall>x \<in> set (rotation ?A). rejects reject_env x"
    by (simp add: rejects_reject_env)
  have f: "failedModels (initial_session ()) = []"
    by (simp add: initial_session_def)
  have 1: "\<exists>st'.
         runAnthropic reject_env (initial_session ()) [Message ''user'' (Some ''q'')] ?A 1000 =
           (Inl (new_Error (unavailable_message (failedModels st'))), st')
       \<and> requested st' = rotation ?A
       \<and> set (failedModels st') = set (rotation ?A)"
    using exhaustion_lists_failed_set [where env = reject_env and model = ?A
        and st = "initial_session ()" and msgs = "[Message ''user'' (Some ''q'')]"
        and maxTokens = 1000, THEN conjunct1, THEN mp, OF h] f
    by (auto simp: initial_session_def)
  have q1: "processQuery reject_env cfg0 ((initial_session ())\<lparr>world := ()\<rparr>) (trim '' q1'') = (Inl ?e, ?s1)"
    by code_simp
  have q2: "processQuery reject_env cfg0 (?s1\<lparr>world := ()\<rparr>) (trim ''q2 '') = (Inl ?e, ?s2)"
    by code_simp
  have t1: "trim '' q1'' \<noteq> [] \<and> map to_lower (trim '' q1'') \<noteq> ''exit''"
    by code_simp
  have t2: "trim ''q2 '' \<noteq> [] \<and> map to_lower (trim ''q2 '') \<noteq> ''exit''"
    by code_simp
  have l: "listTools reject_env (world s) = (Inr (), ())" for s :: "unit session"
    by (simp add: reject_env_def scripted_def)
  have x: "console_loop reject_env cfg0 ?s2 [''exit''] = ([], ?s2, None)"
    by code_simp
  have m: "console_arg reject_env ?e =
     ''All candidate models unavailable: claude-3-5-sonnet-20241022, claude-sonnet-4-20250514, claude-3-5-sonnet-latest''"
    using exhaustion_lists_failed_set [where env = reject_env and f = ?A and fs = "[?B, ?C]",
        THEN conjunct2, THEN conjunct2, THEN conjunct2, THEN conjunct2]
    by simp
  let ?s3 = "\<lparr>failedModels = [], world = (), requested = [?A]\<rparr> :: unit session"
  have qm: "processQuery mute_env cfg0 ((initial_session ())\<lparr>world := ()\<rparr>) (trim ''q'') =
              (Inl (new_Error []), ?s3)"
    by code_simp
  have tm: "trim ''q'' \<noteq> [] \<and> map to_lower (trim ''q'') \<noteq> ''exit''"
    by code_simp
  have lm: "listTools mute_env (world s) = (Inr (), ())" for s :: "unit session"
    by (simp add: mute_env_def scripted_def)
  have xm: "console_loop mute_env cfg0 ?s3 [''exit''] = ([], ?s3, None)"
    by code_simp
  have mm: "console_arg mute_env (new_Error []) = ''Error\<newline>    at <anonymous>''"
    using exhaustion_lists_failed_set [where env = mute_env and err = "new_Error []",
        THEN conjunct2, THEN conjunct2, THEN conjunct2, THEN conjunct1]
    by (simp add: new_Error_def mute_env_def scripted_def)
  have cm: "console_loop mute_env cfg0 (initial_session ()) [''q'', ''exit''] =
              ([''Error processing query: '' @ console_arg mute_env (new_Error [])], ?s3, None)"
    using exhaustion_lists_failed_set [where env = mute_env and cfg = cfg0
        and st = "initial_session ()"
        and line = "''q''" and lines = "[''exit'']" and u = "()" and w = "()"
        and err = "new_Error []" and ?st2.0 = ?s3, THEN conjunct2, THEN conjunct1, THEN mp,
        OF conjI [OF conjunct1 [OF tm] conjI [OF conjunct2 [OF tm] conjI [OF lm qm]]]]
    by (simp add: xm del: console_loop.simps)
  have c2: "console_loop reject_env cfg0 ?s1 [''q2 '', ''exit''] =
              ([''Error processing query: '' @ console_arg reject_env ?e], ?s2, None)"
    using exhaustion_lists_failed_set [where env = reject_env and cfg = cfg0 and st = ?s1
        and line = "''q2 ''" and lines = "[''exit'']" and u = "()" and w = "()" and err = ?e
        and ?st2.0 = ?s2, THEN conjunct2, THEN conjunct1, THEN mp,
        OF conjI [OF conjunct1 [OF t2] conjI [OF conjunct2 [OF t2] conjI [OF l q2]]]]
    by (simp add: x del: console_loop.simps)
  have c1: "console_loop reject_env cfg0 (initial_session ()) ['' q1'', ''q2 '', ''exit''] =
              ([''Error processing query: '' @ console_arg reject_env ?e,
                ''Error processing query: '' @ console_arg reject_env ?e], ?s2, None)"
    using exhaustion_lists_failed_set [where env = reject_env and cfg = cfg0
        and st = "initial_session ()"
        and line = "'' q1''" and lines = "[''q2 '', ''exit'']" and u = "()" and w = "()"
        and err = ?e and ?st2.0 = ?s1, THEN conjunct2, THEN conjunct1, THEN mp,
        OF conjI [OF conjunct1 [OF t1] conjI [OF conjunct2 [OF t1] conjI [OF l q1]]]]
    by (simp add: c2 del: console_loop.simps)
  have d: "create direct_env (world ?all) (chosenModel cfg0) (max_tokens cfg0)
             [Message ''user'' (Some ''q3'')] =
             (Inr [TextBlock ''It has 4 tables.'', OtherBlock, TextBlock ''Done.''], ())
           \<and> (\<forall>b \<in> set [TextBlock ''It has 4 tables.'', OtherBlock, TextBlock ''Done.'' :: unit block].
                 \<not> is_tool_use b)"
    by (simp add: direct_env_def scripted_def)
  have 3: "processQuery direct_env cfg0 ?all ''q3'' =
       (Inr ''It has 4 tables.\<newline>Done.'',
        \<lparr>failedModels = [?A, ?B, ?C], world = (), requested = [?A]\<rparr>)"
    using exhaustion_lists_failed_set [where env = direct_env and cfg = cfg0 and st = ?all
        and query = "''q3''" and w = "()"
        and response = "[TextBlock ''It has 4 tables.'', OtherBlock, TextBlock ''Done.'']",
        THEN conjunct2, THEN conjunct2, THEN conjunct1, THEN mp, OF d]
    by (simp add: chosenModel_def cfg0_def DEFAULT_MODEL_CANDIDATES_def)
  from rejects_reject_env rejects_reject_env rejects_reject_env 1 c1 [unfolded m] cm [unfolded mm] 3
  show ?thesis
    by (intro conjI) simp_all
qed

theorem exhaustion_lists_attempted_counterexample:
  "rotation (chosenModel cfg0) = [''claude-3-5-sonnet-20241022'', ''claude-sonnet-4-20250514'', ''claude-3-5-sonnet-latest'']
   \<and> rejects reject_env ''claude-3-5-sonnet-20241022'' \<and> rejects reject_env ''claude-sonnet-4-20250514''
   \<and> rejects reject_env ''claude-3-5-sonnet-latest''
   \<and> processQuery reject_env cfg0
        \<lparr>failedModels = [''claude-3-5-sonnet-20241022'', ''claude-sonnet-4-20250514'',
                         ''claude-3-5-sonnet-latest''], world = (),
         requested = [''claude-3-5-sonnet-20241022'', ''claude-sonnet-4-20250514'',
                      ''claude-3-5-sonnet-latest'']\<rparr> ''q2'' =
       (Inl (new_Error (unavailable_message
               [''claude-3-5-sonnet-20241022'', ''claude-sonnet-4-20250514'',
                ''claude-3-5-sonnet-latest''])),
        \<lparr>failedModels = [''claude-3-5-sonnet-20241022'', ''claude-sonnet-4-20250514'',
                         ''claude-3-5-sonnet-latest''], world = (),
         requested = [''claude-3-5-sonnet-20241022'', ''claude-sonnet-4-20250514'',
                      ''claude-3-5-sonnet-latest''] @ [''claude-3-5-sonnet-20241022'']\<rparr>)
   \<and> snd (processQuery reject_env cfg0 (initial_session ()) ''q1'') =
        \<lparr>failedModels = [''claude-3-5-sonnet-20241022'', ''claude-sonnet-4-20250514'',
                         ''claude-3-5-sonnet-latest''], world = (),
         requested = [''claude-3-5-sonnet-20241022'', ''claude-sonnet-4-20250514'',
                      ''claude-3-5-sonnet-latest'']\<rparr>
   \<and> set [''claude-3-5-sonnet-20241022'', ''claude-sonnet-4-20250514'', ''claude-3-5-sonnet-latest'']
        \<noteq> set [''claude-3-5-sonnet-20241022'']"
proof -
  have 0: "rotation (chosenModel cfg0) = [''claude-3-5-sonnet-20241022'', ''claude-sonnet-4-20250514'', ''claude-3-5-sonnet-latest'']"
    by (simp add: rotation_eq DEFAULT_MODEL_CANDIDATES_def chosenModel_def cfg0_def)
  note 1 = rejects_reject_env
  have 2: "processQuery reject_env cfg0
        \<lparr>failedModels = [''claude-3-5-sonnet-20241022'', ''claude-sonnet-4-20250514'',
                         ''claude-3-5-sonnet-latest''], world = (),
         requested = [''claude-3-5-sonnet-20241022'', ''claude-sonnet-4-20250514'',
                      ''claude-3-5-sonnet-latest'']\<rparr> ''q2'' =
       (Inl (new_Error (unavailable_message
               [''claude-3-5-sonnet-20241022'', ''claude-sonnet-4-20250514'',
                ''claude-3-5-sonnet-latest''])),
        \<lparr>failedModels = [''claude-3-5-sonnet-20241022'', ''claude-sonnet-4-20250514'',
                         ''claude-3-5-sonnet-latest''], world = (),
         requested = [''claude-3-5-sonnet-20241022'', ''claude-sonnet-4-20250514'',
                      ''claude-3-5-sonnet-latest''] @ [''claude-3-5-sonnet-20241022'']\<rparr>)"
    by code_simp
  have 3: "snd (processQuery reject_env cfg0 (initial_session ()) ''q1'') =
        \<lparr>failedModels = [''claude-3-5-sonnet-20241022'', ''claude-sonnet-4-20250514'',
                         ''claude-3-5-sonnet-latest''], world = (),
         requested = [''claude-3-5-sonnet-20241022'', ''claude-sonnet-4-20250514'',
                      ''claude-3-5-sonnet-latest'']\<rparr>"
    by code_simp
  have 4: "set [''claude-3-5-sonnet-20241022'', ''claude-sonnet-4-20250514'', ''claude-3-5-sonnet-latest'']
        \<noteq> set [''claude-3-5-sonnet-20241022'']"
    by simp
  from 0 1 1 1 2 3 4 show ?thesis
    by (intro conjI)
qed


text \<open>
  Claim C5, as amended. The exhausted set belongs to the session: it is empty when the
  console loop starts, and neither a model call, nor a query, nor the loop over any
  number of queries removes a model from it. In every model call the models requested
  after the starting one are outside the set the call began with, so a model exhausted
  in an earlier query is skipped by fallback in every later one.
\<close>

theorem exhausted_set_session_scoped:
  "failedModels (initial_session w) = []
   \<and> set (failedModels st) \<subseteq> set (failedModels (snd (runAnthropic env st msgs model maxTokens)))
   \<and> set (failedModels st) \<subseteq> set (failedModels (snd (processQuery env cfg st query)))
   \<and> set (failedModels st) \<subseteq> set (failedModels (fst (snd (console_loop env cfg st lines))))
   \<and> (\<exists>tried.
          requested (snd (runAnthropic env st msgs model maxTokens)) = requested st @ model # tried
        \<and> set tried \<inter> set (failedModels st) = {})"
proof -
  from runAnthropic_trace [OF refl, of env st msgs model maxTokens] obtain tried rest where
    1: "requested (snd (runAnthropic env st msgs model maxTokens)) = requested st @ model # tried"
    and 2: "untried (failedModels st) model = tried @ rest"
    by blast
  have "set tried \<inter> set (failedModels st) = {}"
    using untried_fresh [of "failedModels st" model] unfolding 2 by auto
  with 1 have "\<exists>tried.
          requested (snd (runAnthropic env st msgs model maxTokens)) = requested st @ model # tried
        \<and> set tried \<inter> set (failedModels st) = {}"
    by blast
  then show ?thesis
    using runAnthropic_failed_mono [of st env msgs model maxTokens]
      processQuery_failed_mono [of st env cfg query]
      console_loop_failed_mono [of st env cfg lines]
    by (simp add: initial_session_def)
qed

theorem exhausted_set_session_scoped_witness:
  "set (failedModels (snd (processQuery only_last_env cfg0 (initial_session ()) ''q1'')))
     \<subseteq> set (failedModels (snd (processQuery only_last_env cfg0
              (snd (processQuery only_last_env cfg0 (initial_session ()) ''q1'')) ''q2'')))"
  using exhausted_set_session_scoped [of "()"
      "snd (processQuery only_last_env cfg0 (initial_session ()) ''q1'')" only_last_env
      "[]" "[]" 0 cfg0 "''q2''" "[]"]
  by (elim conjE)

theorem exhausted_set_per_query_counterexample:
  "failedModels (snd (processQuery only_last_env cfg0 (initial_session ()) ''q1'')) =
     [''claude-3-5-sonnet-20241022'', ''claude-sonnet-4-20250514'']
   \<and> console_loop only_last_env cfg0 (initial_session ()) [''q1'', ''q2''] =
       ([CHR 0x0A # ''answer'', CHR 0x0A # ''answer''],
        \<lparr>failedModels = [''claude-3-5-sonnet-20241022'', ''claude-sonnet-4-20250514''], world = (),
         requested = [''claude-3-5-sonnet-20241022'', ''claude-sonnet-4-20250514'',
                      ''claude-3-5-sonnet-latest'',
                      ''claude-3-5-sonnet-20241022'', ''claude-3-5-sonnet-latest'']\<rparr>,
        None)
   \<and> requested (snd (processQuery only_last_env cfg0
         \<lparr>failedModels = [''claude-3-5-sonnet-20241022'', ''claude-sonnet-4-20250514''], world = (),
          requested = []\<rparr> ''q2'')) =
       [''claude-3-5-sonnet-20241022'', ''claude-3-5-sonnet-latest'']
   \<and> requested (snd (processQuery only_last_env cfg0
         \<lparr>failedModels = [], world = (), requested = []\<rparr> ''q2'')) =
       [''claude-3-5-sonnet-20241022'', ''claude-sonnet-4-20250514'', ''claude-3-5-sonnet-latest'']"
proof -
  have 1: "failedModels (snd (processQuery only_last_env cfg0 (initial_session ()) ''q1'')) =
     [''claude-3-5-sonnet-20241022'', ''claude-sonnet-4-20250514'']"
    by code_simp
  have 2: "console_loop only_last_env cfg0 (initial_session ()) [''q1'', ''q2''] =
       ([CHR 0x0A # ''answer'', CHR 0x0A # ''answer''],
        \<lparr>failedModels = [''claude-3-5-sonnet-20241022'', ''claude-sonnet-4-20250514''], world = (),
         requested = [''claude-3-5-sonnet-20241022'', ''claude-sonnet-4-20250514'',
                      ''claude-3-5-sonnet-latest'',
                      ''claude-3-5-sonnet-20241022'', ''claude-3-5-sonnet-latest'']\<rparr>,
        None)"
    by code_simp
  have 3: "requested (snd (processQuery only_last_env cfg0
         \<lparr>failedModels = [''claude-3-5-sonnet-20241022'', ''claude-sonnet-4-20250514''], world = (),
          requested = []\<rparr> ''q2'')) =
       [''claude-3-5-sonnet-20241022'', ''claude-3-5-sonnet-latest'']"
    by code_simp
  have 4: "requested (snd (processQuery only_last_env cfg0
         \<lparr>failedModels = [], world = (), requested = []\<rparr> ''q2'')) =
       [''claude-3-5-sonnet-20241022'', ''claude-sonnet-4-20250514'', ''claude-3-5-sonnet-latest'']"
    by code_simp
  from 1 2 3 4 show ?thesis
    by (intro conjI)
qed

section \<open>Properties of the session manager\<close>

lemma session_inv_new: "session_inv new_ClientSession"
  by (simp add: session_inv_def new_ClientSession_def)

lemma session_inv_call:
  assumes "session_inv s" and "idCounter s < 2 ^ 53"
  shows "session_inv (snd (call method ps sr s))"
  using assms
  by (auto simp: session_inv_def call_def Let_def js_increment_def nth_append less_Suc_eq)

lemma session_inv_ensureListener: "session_inv s \<Longrightarrow> session_inv (ensureListener s)"
  by (simp add: session_inv_def ensureListener_def)

lemma session_inv_unread: "session_inv (s\<lparr>unread := u\<rparr>) = session_inv s"
  by (simp add: session_inv_def)

lemma length_settle: "length (settle p out cs) = length cs"
  by (simp add: settle_def)

lemma nth_settle_other: "q \<noteq> p \<Longrightarrow> settle p out cs ! q = cs ! q"
  by (simp add: settle_def)

lemma request_settle: "request (settle p out cs ! q) = request (cs ! q)"
  by (cases "q = p") (auto simp: settle_def)

lemma on_message_cases:
  obtains (dropped) "on_message msg s = s"
  | (matched) i err res p where "msg = Object (Some i) err res"
      and "pending s i = Some p"
      and "on_message msg s =
             s\<lparr>calls := settle p (handler_outcome err res) (calls s),
               pending := (pending s)(i := None)\<rparr>"
proof (cases msg)
  case NonObject
  then show ?thesis by (intro dropped) (simp add: on_message_def)
next
  case (Object k err res)
  show ?thesis
  proof (cases k)
    case None
    with Object show ?thesis by (intro dropped) (simp add: on_message_def)
  next
    case (Some i)
    show ?thesis
    proof (cases "pending s i")
      case None
      with Object Some show ?thesis by (intro dropped) (simp add: on_message_def)
    next
      case (Some p)
      with Object \<open>k = Some i\<close> show ?thesis
        by (intro matched [of i err res p]) (simp_all add: on_message_def)
    qed
  qed
qed

lemma session_inv_on_message:
  assumes "session_inv s"
  shows "session_inv (on_message msg s)"
proof (cases msg s rule: on_message_cases)
  case dropped
  with assms show ?thesis by simp
next
  case (matched i err res p)
  from assms matched(2) have i: "i = IdNum (p + 1)"
    by (simp add: session_inv_def)
  have "k = IdNum (q + 1) \<and> q < length (calls s) \<and>
          inner (settle p (handler_outcome err res) (calls s) ! q) = None"
    if "((pending s)(i := None)) k = Some q" for k q
  proof -
    from that have k: "k \<noteq> i" and q: "pending s k = Some q"
      by (auto split: if_splits)
    from assms q have *: "k = IdNum (q + 1)" "q < length (calls s)" "inner (calls s ! q) = None"
      by (simp_all add: session_inv_def)
    with k i have "q \<noteq> p" by auto
    with * show ?thesis by (simp add: nth_settle_other)
  qed
  with assms show ?thesis
    unfolding matched(3) by (simp add: session_inv_def length_settle request_settle)
qed

lemma listener_next_cases:
  obtains (idle) "listener_next s = s" and "taken s Deliver = []"
  | (read) msg rest where "listening s" and "unread s = msg # rest"
      and "listener_next s = on_message msg (s\<lparr>unread := rest\<rparr>)" and "taken s Deliver = [msg]"
proof (cases "listening s")
  case False
  then show ?thesis by (intro idle) (simp_all add: listener_next_def)
next
  case True
  show ?thesis
  proof (cases "unread s")
    case Nil
    with True show ?thesis by (intro idle) (simp_all add: listener_next_def)
  next
    case (Cons msg rest)
    with True show ?thesis by (intro read [of msg rest]) (simp_all add: listener_next_def)
  qed
qed

lemma session_inv_step:
  assumes "session_inv s" and "is_call e \<Longrightarrow> idCounter s < 2 ^ 53"
  shows "session_inv (step s e)"
proof (cases e)
  case (Initialize sr)
  with assms show ?thesis
    using session_inv_call [of "ensureListener s" "''initialize''" NoParams sr]
    by (simp add: session_inv_ensureListener) (simp add: ensureListener_def)
next
  case (ListTools sr)
  with assms show ?thesis by (simp add: session_inv_call)
next
  case (CallTool name args sr)
  with assms show ?thesis by (simp add: session_inv_call)
next
  case (Inbound msg)
  with assms show ?thesis by (simp add: session_inv_unread)
next
  case Deliver
  show ?thesis
  proof (cases s rule: listener_next_cases)
    case idle
    with Deliver assms show ?thesis by simp
  next
    case (read msg rest)
    with Deliver assms show ?thesis
      by (simp add: session_inv_on_message session_inv_unread)
  qed
next
  case Close
  with assms show ?thesis by (simp add: session_inv_def close_def)
qed

lemma on_message_fields:
  "idCounter (on_message msg s) = idCounter s" "listening (on_message msg s) = listening s"
  "unread (on_message msg s) = unread s" "closed (on_message msg s) = closed s"
  "sent (on_message msg s) = sent s"
  by (cases msg s rule: on_message_cases; simp)+

lemma listener_next_fields:
  "idCounter (listener_next s) = idCounter s" "listening (listener_next s) = listening s"
  "closed (listener_next s) = closed s" "sent (listener_next s) = sent s"
  by (cases s rule: listener_next_cases; simp add: on_message_fields)+

lemma idCounter_step:
  "idCounter s < 2 ^ 53 \<Longrightarrow> idCounter (step s e) = idCounter s + (if is_call e then 1 else 0)"
  by (cases e)
    (auto simp: call_def Let_def js_increment_def ensureListener_def listener_next_fields close_def)

lemma idCounter_step_other: "\<not> is_call e \<Longrightarrow> idCounter (step s e) = idCounter s"
  by (cases e) (auto simp: listener_next_fields close_def)

lemma run_Cons: "run s (e # evs) = run (step s e) evs"
  by (simp add: run_def)

lemma run_append: "run s (xs @ ys) = run (run s xs) ys"
  by (simp add: run_def)

lemma calls_in_Cons: "calls_in (e # evs) = (if is_call e then 1 else 0) + calls_in evs"
  by (simp add: calls_in_def)

lemma session_inv_run:
  "session_inv s \<Longrightarrow> idCounter s + calls_in evs \<le> 2 ^ 53 \<Longrightarrow>
     session_inv (run s evs) \<and> idCounter (run s evs) = idCounter s + calls_in evs"
proof (induction evs arbitrary: s)
  case Nil
  then show ?case by (simp add: run_def calls_in_def)
next
  case (Cons e evs)
  show ?case
  proof (cases "is_call e")
    case True
    with Cons.prems have lt: "idCounter s < 2 ^ 53"
      by (simp add: calls_in_Cons)
    have i: "session_inv (step s e)"
      using Cons.prems(1) lt by (simp add: session_inv_step)
    have c: "idCounter (step s e) = idCounter s + 1"
      using idCounter_step [OF lt, of e] True by simp
    from Cons.IH [OF i] c Cons.prems(2) True show ?thesis
      by (simp add: run_Cons calls_in_Cons)
  next
    case False
    have i: "session_inv (step s e)"
      using Cons.prems(1) False by (intro session_inv_step) simp_all
    from Cons.IH [OF i] idCounter_step_other [OF False, of s] Cons.prems(2) False show ?thesis
      by (simp add: run_Cons calls_in_Cons)
  qed
qed

lemma listening_step: "listening (step s e) \<longleftrightarrow> listening s \<or> (\<exists>sr. e = Initialize sr)"
  by (cases e) (auto simp: call_def Let_def ensureListener_def listener_next_fields close_def)

lemma listening_run: "listening (run s evs) \<longleftrightarrow> listening s \<or> (\<exists>sr. Initialize sr \<in> set evs)"
  by (induction evs arbitrary: s) (auto simp: run_def listening_step)

lemma delivered_listening: "\<not> listening (run s evs) \<Longrightarrow> delivered s evs = []"
proof (induction evs arbitrary: s)
  case Nil
  show ?case by simp
next
  case (Cons e evs)
  from Cons.prems have n: "\<not> listening (step s e)" and m: "\<not> listening s"
    by (simp_all add: listening_run listening_step run_Cons)
  from m have "taken s e = []"
    by (cases e) simp_all
  with Cons.IH [of "step s e"] Cons.prems show ?case
    by (simp add: run_Cons)
qed

lemma unread_step: "taken s e @ unread (step s e) = unread s @ produced e"
proof (cases e)
  case Deliver
  show ?thesis
    by (cases s rule: listener_next_cases) (simp_all add: Deliver on_message_fields)
qed (simp_all add: call_def Let_def ensureListener_def close_def)

lemma delivered_fifo: "delivered s evs @ unread (run s evs) = unread s @ arrivals evs"
proof (induction evs arbitrary: s)
  case Nil
  show ?case by (simp add: run_def arrivals_def)
next
  case (Cons e evs)
  have "delivered s (e # evs) @ unread (run s (e # evs)) =
          taken s e @ unread (step s e) @ arrivals evs"
    using Cons.IH [of "step s e"] by (simp add: run_Cons)
  also have "\<dots> = unread s @ arrivals (e # evs)"
    using unread_step [of s e] by (simp add: arrivals_def)
  finally show ?case .
qed

lemma delivered_sources: "set (delivered s evs) \<subseteq> set (unread s) \<union> set (arrivals evs)"
proof -
  have "set (delivered s evs) \<subseteq> set (delivered s evs @ unread (run s evs))"
    by simp
  then show ?thesis
    by (simp only: delivered_fifo set_append)
qed

lemma calls_step:
  "\<exists>cs. length cs = length (calls s) \<and> calls (step s e) = cs @ drop (length (calls s)) (calls (step s e))
     \<and> (\<forall>p < length (calls s).
           request (cs ! p) = request (calls s ! p) \<and> send_error (cs ! p) = send_error (calls s ! p)
         \<and> (inner (calls s ! p) \<noteq> None \<longrightarrow> inner (cs ! p) = inner (calls s ! p)))"
proof (cases "is_call e")
  case True
  then have "calls (step s e) = calls s @ drop (length (calls s)) (calls (step s e))"
    by (cases e) (auto simp: call_def Let_def ensureListener_def)
  then show ?thesis by (intro exI [of _ "calls s"]) simp
next
  case False
  show ?thesis
  proof (cases e)
    case (Inbound msg)
    then show ?thesis by (intro exI [of _ "calls s"]) simp
  next
    case Deliver
    show ?thesis
    proof (cases s rule: listener_next_cases)
      case idle
      with Deliver show ?thesis by (intro exI [of _ "calls s"]) simp
    next
      case (read msg rest)
      show ?thesis
      proof (cases msg "s\<lparr>unread := rest\<rparr>" rule: on_message_cases)
        case dropped
        with Deliver read show ?thesis by (intro exI [of _ "calls s"]) simp
      next
        case (matched i err res p)
        with Deliver read show ?thesis
          by (intro exI [of _ "settle p (handler_outcome err res) (calls s)"])
            (auto simp: length_settle settle_def nth_list_update)
      qed
    qed
  next
    case Close
    then show ?thesis by (intro exI [of _ "calls s"]) (simp add: close_def)
  qed (use False in simp_all)
qed

lemma step_keeps_call:
  assumes "p < length (calls s)"
  shows "p < length (calls (step s e))"
    and "request (calls (step s e) ! p) = request (calls s ! p)"
    and "send_error (calls (step s e) ! p) = send_error (calls s ! p)"
    and "inner (calls s ! p) \<noteq> None \<Longrightarrow> inner (calls (step s e) ! p) = inner (calls s ! p)"
proof -
  from calls_step [of s e] obtain cs where l: "length cs = length (calls s)"
    and c: "calls (step s e) = cs @ drop (length (calls s)) (calls (step s e))"
    and r: "\<forall>p < length (calls s).
           request (cs ! p) = request (calls s ! p) \<and> send_error (cs ! p) = send_error (calls s ! p)
         \<and> (inner (calls s ! p) \<noteq> None \<longrightarrow> inner (cs ! p) = inner (calls s ! p))"
    by blast
  have n: "calls (step s e) ! p = cs ! p"
    using assms l by (subst c) (simp add: nth_append)
  show "p < length (calls (step s e))"
    using assms l by (subst c) simp
  show "request (calls (step s e) ! p) = request (calls s ! p)"
    and "send_error (calls (step s e) ! p) = send_error (calls s ! p)"
    and "inner (calls s ! p) \<noteq> None \<Longrightarrow> inner (calls (step s e) ! p) = inner (calls s ! p)"
    using assms r unfolding n by simp_all
qed

lemma run_keeps_call:
  "p < length (calls s) \<Longrightarrow>
     p < length (calls (run s evs))
   \<and> request (calls (run s evs) ! p) = request (calls s ! p)
   \<and> send_error (calls (run s evs) ! p) = send_error (calls s ! p)
   \<and> (inner (calls s ! p) \<noteq> None \<longrightarrow> inner (calls (run s evs) ! p) = inner (calls s ! p))"
proof (induction evs arbitrary: s)
  case Nil
  then show ?case by (simp add: run_def)
next
  case (Cons e evs)
  from step_keeps_call [OF Cons.prems, of e] Cons.IH [of "step s e"] show ?case
    by (auto simp: run_Cons)
qed

lemma pending_step_other:
  assumes "session_inv s" and "pending s (IdNum i) = Some p"
    and "\<forall>m \<in> set (taken s e). \<not> answers i (Inbound m)"
    and "is_call e \<Longrightarrow> idCounter s < 2 ^ 53"
  shows "pending (step s e) (IdNum i) = Some p"
proof (cases "is_call e")
  case True
  from assms(1,2) have "i < idCounter s"
    by (auto simp: session_inv_def)
  with True assms(2) show ?thesis
    by (cases e) (auto simp: call_def Let_def ensureListener_def)
next
  case False
  show ?thesis
  proof (cases e)
    case (Inbound msg)
    with assms(2) show ?thesis by simp
  next
    case Deliver
    show ?thesis
    proof (cases s rule: listener_next_cases)
      case idle
      with Deliver assms(2) show ?thesis by simp
    next
      case (read msg rest)
      show ?thesis
      proof (cases msg "s\<lparr>unread := rest\<rparr>" rule: on_message_cases)
        case dropped
        with Deliver read assms(2) show ?thesis by simp
      next
        case (matched k err res q)
        with Deliver read assms(3) have "k \<noteq> IdNum i" by auto
        with matched Deliver read assms(2) show ?thesis by simp
      qed
    qed
  next
    case Close
    with assms(2) show ?thesis by (simp add: close_def)
  qed (use False in simp_all)
qed

lemma bound_step:
  assumes "idCounter s + calls_in (e # evs) \<le> 2 ^ 53"
  shows "is_call e \<Longrightarrow> idCounter s < 2 ^ 53" and "idCounter (step s e) + calls_in evs \<le> 2 ^ 53"
proof -
  show b: "is_call e \<Longrightarrow> idCounter s < 2 ^ 53"
    using assms by (simp add: calls_in_Cons)
  show "idCounter (step s e) + calls_in evs \<le> 2 ^ 53"
  proof (cases "is_call e")
    case True
    with idCounter_step [OF b, of e] assms show ?thesis
      by (simp add: calls_in_Cons)
  next
    case False
    with idCounter_step_other [of e s] assms show ?thesis
      by (simp add: calls_in_Cons)
  qed
qed

lemma reply_skip:
  "\<forall>m \<in> set ms. \<not> answers i (Inbound m) \<Longrightarrow>
     reply i (map Inbound (ms @ ns)) = reply i (map Inbound ns)"
  by (induction ms) (simp_all add: reply_def)

lemma pending_call_answered:
  assumes "session_inv s" and "pending s (IdNum i) = Some p"
  shows "idCounter s + calls_in evs \<le> 2 ^ 53 \<Longrightarrow>
     inner (calls (run s evs) ! p) = reply i (map Inbound (delivered s evs))"
  using assms
proof (induction evs arbitrary: s)
  case Nil
  then show ?case by (simp add: run_def reply_def session_inv_def)
next
  case (Cons e evs)
  note b = bound_step [OF Cons.prems(1)]
  have inv': "session_inv (step s e)"
    using Cons.prems(2) b(1) by (rule session_inv_step)
  have p: "p < length (calls s)" and u: "inner (calls s ! p) = None"
    using Cons.prems(2,3) by (simp_all add: session_inv_def)
  show ?case
  proof (cases "\<exists>m \<in> set (taken s e). answers i (Inbound m)")
    case True
    then obtain m where m: "m \<in> set (taken s e)" and a: "answers i (Inbound m)"
      by blast
    from a obtain err res where o: "m = Object (Some (IdNum i)) err res"
      by (cases "(i, Inbound m)" rule: answers.cases) auto
    from m have e: "e = Deliver"
      by (cases e) simp_all
    have "\<exists>rest. listening s \<and> unread s = m # rest \<and> taken s e = [m]"
      using m unfolding e by (cases s rule: listener_next_cases) auto
    then obtain rest where l: "listening s" and r: "unread s = m # rest" and t: "taken s e = [m]"
      by blast
    have "calls (step s e) = settle p (handler_outcome err res) (calls s)"
      using Cons.prems(3) l r by (simp add: e o listener_next_def on_message_def)
    then have "inner (calls (step s e) ! p) = Some (handler_outcome err res)"
      using p u by (simp add: settle_def)
    moreover have "p < length (calls (step s e))"
      using p by (rule step_keeps_call)
    ultimately have "inner (calls (run (step s e) evs) ! p) = Some (handler_outcome err res)"
      using run_keeps_call [of p "step s e" evs] by simp
    then show ?thesis
      by (simp add: run_Cons reply_def t o)
  next
    case False
    then have n: "\<forall>m \<in> set (taken s e). \<not> answers i (Inbound m)"
      by blast
    have "pending (step s e) (IdNum i) = Some p"
      using Cons.prems(2,3) n b(1) by (rule pending_step_other)
    from Cons.IH [OF b(2) inv' this]
    have "inner (calls (run s (e # evs)) ! p) = reply i (map Inbound (delivered (step s e) evs))"
      by (simp add: run_Cons)
    also have "\<dots> = reply i (map Inbound (delivered s (e # evs)))"
      using reply_skip [OF n, of "delivered (step s e) evs"] by simp
    finally show ?thesis .
  qed
qed

lemma session_inv_reachable:
  assumes "calls_in evs < 2 ^ 53"
  shows "session_inv (run new_ClientSession evs)"
    and "idCounter (run new_ClientSession evs) = Suc (calls_in evs)"
    and "length (calls (run new_ClientSession evs)) = calls_in evs"
proof -
  have "idCounter (new_ClientSession :: 'a client_session) + calls_in evs \<le> 2 ^ 53"
    using assms by (simp add: new_ClientSession_def)
  from session_inv_run [OF session_inv_new this]
  show "session_inv (run new_ClientSession evs)"
    and c: "idCounter (run new_ClientSession evs) = Suc (calls_in evs)"
    by (simp_all add: new_ClientSession_def)
  then show "length (calls (run new_ClientSession evs)) = calls_in evs"
    by (simp add: session_inv_def)
qed

lemma request_ids:
  assumes "session_inv s"
  shows "map (\<lambda>c. req_id (request c)) (calls s) = [1 ..< idCounter s]"
proof (rule nth_equalityI)
  have "idCounter s = Suc (length (calls s))"
    using assms by (simp add: session_inv_def)
  then show "length (map (\<lambda>c. req_id (request c)) (calls s)) = length [1 ..< idCounter s]"
    by (simp only: length_map length_upt)
next
  fix p
  assume "p < length (map (\<lambda>c. req_id (request c)) (calls s))"
  then have p: "p < length (calls s)"
    by simp
  then have "req_id (request (calls s ! p)) = p + 1" and "1 + p < idCounter s"
    using assms by (simp_all add: session_inv_def)
  then show "map (\<lambda>c. req_id (request c)) (calls s) ! p = [1 ..< idCounter s] ! p"
    using p by (simp only: nth_map nth_upt)
qed

lemma step_call_event:
  assumes "is_call e"
  shows "pending (step s e) (IdNum (idCounter s)) = Some (length (calls s))"
    and "send_error (calls (step s e) ! length (calls s)) = send_failure e"
    and "unread (step s e) = unread s"
  using assms by (cases e; simp add: call_def Let_def ensureListener_def)+

lemma pending_call_unanswered:
  assumes "session_inv s" and "pending s (IdNum i) = Some p"
  shows "idCounter s + calls_in evs \<le> 2 ^ 53 \<Longrightarrow>
     \<forall>m \<in> set (delivered s evs). \<not> answers i (Inbound m) \<Longrightarrow>
     inner (calls (run s evs) ! p) = None \<and> pending (run s evs) (IdNum i) = Some p"
  using assms
proof (induction evs arbitrary: s)
  case Nil
  then show ?case by (simp add: run_def session_inv_def)
next
  case (Cons e evs)
  note b = bound_step [OF Cons.prems(1)]
  have inv': "session_inv (step s e)"
    using Cons.prems(3) b(1) by (rule session_inv_step)
  have "\<forall>m \<in> set (taken s e). \<not> answers i (Inbound m)"
    using Cons.prems(2) by simp
  with Cons.prems(3,4) have "pending (step s e) (IdNum i) = Some p"
    using b(1) by (intro pending_step_other)
  from Cons.IH [OF b(2) _ inv' this] Cons.prems(2) show ?case
    by (simp add: run_Cons)
qed

text \<open>
  Claim C1, as amended. Take any history of a new session in which fewer than \<open>2^53\<close>
  calls are issued, and in it a call whose request was sent. The ids of the requests,
  in the order of the calls, are \<open>1, 2, 3, ...\<close>: distinct and increasing. The call
  receives the outcome dictated by the first message with its id that the listener reads
  after the call was made, whatever else it reads before or after, and is unsettled when
  the listener reads no such message. The listener reads the stream in order and skips
  nothing: what it has read, followed by what is still unread, is what was unread before
  followed by what the transport has produced since. So once the listener has read
  everything, the call has the outcome of the first message with its id among those
  unread when it was made and those produced later, in whatever order the responses
  arrive, also when the call was made before the listener existed. There is a listener
  exactly when \<^verbatim>\<open>initialize\<close> has been invoked, and without one nothing is read. A
  message that is no object, has no id, or has an id with no pending call, leaves the
  session as it is.
\<close>

theorem responses_correlated_by_id:
  assumes "calls_in (pre @ ev # post) < 2 ^ 53"
    and "is_call ev" and "send_failure ev = None"
  shows "map (\<lambda>c. req_id (request c)) (calls (run new_ClientSession (pre @ ev # post))) =
           [1 ..< Suc (calls_in (pre @ ev # post))]
       \<and> call_result (calls (run new_ClientSession (pre @ ev # post)) ! calls_in pre) =
           reply (Suc (calls_in pre))
             (map Inbound (delivered (run new_ClientSession (pre @ [ev])) post))
       \<and> (unread (run new_ClientSession (pre @ ev # post)) = [] \<longrightarrow>
            call_result (calls (run new_ClientSession (pre @ ev # post)) ! calls_in pre) =
              reply (Suc (calls_in pre))
                (map Inbound (unread (run new_ClientSession pre) @ arrivals post)))
       \<and> delivered s evs @ unread (run s evs) = unread s @ arrivals evs
       \<and> (listening (run new_ClientSession evs) \<longleftrightarrow> (\<exists>sr. Initialize sr \<in> set evs))
       \<and> (\<not> listening (run s evs) \<longrightarrow> delivered s evs = [])
       \<and> (msg = NonObject \<or> obj_id msg = None \<or> (\<exists>k. obj_id msg = Some k \<and> pending s k = None)
            \<longrightarrow> on_message msg s = s)"
proof -
  let ?new = "new_ClientSession :: 'a client_session"
  let ?s1 = "run ?new pre" and ?s2 = "run ?new (pre @ [ev])" and ?s = "run ?new (pre @ ev # post)"
  let ?p = "calls_in pre"
  have all: "session_inv ?s" "idCounter ?s = Suc (calls_in (pre @ ev # post))"
    using assms(1) by (rule session_inv_reachable)+
  have ids: "map (\<lambda>c. req_id (request c)) (calls ?s) = [1 ..< Suc (calls_in (pre @ ev # post))]"
    using request_ids [OF all(1)] all(2) by simp
  have b1: "calls_in pre < 2 ^ 53" and b2: "calls_in (pre @ [ev]) < 2 ^ 53"
    using assms(1,2) by (simp_all add: calls_in_def)
  have s1: "session_inv ?s1" "idCounter ?s1 = Suc ?p" "length (calls ?s1) = ?p"
    using b1 by (rule session_inv_reachable)+
  have s2: "session_inv ?s2" "idCounter ?s2 = Suc (calls_in (pre @ [ev]))"
    using b2 by (rule session_inv_reachable)+
  have st: "?s2 = step ?s1 ev"
    by (simp add: run_def)
  have pend: "pending ?s2 (IdNum (Suc ?p)) = Some ?p"
    using step_call_event(1) [OF assms(2), of ?s1] s1 unfolding st by simp
  have sf: "send_error (calls ?s2 ! ?p) = None"
    using step_call_event(2) [OF assms(2), of ?s1] s1 assms(3) unfolding st by simp
  have un: "unread ?s2 = unread ?s1"
    using step_call_event(3) [OF assms(2), of ?s1] unfolding st .
  have "calls_in (pre @ ev # post) = calls_in (pre @ [ev]) + calls_in post"
    by (simp add: calls_in_def)
  then have bound: "idCounter ?s2 + calls_in post \<le> 2 ^ 53"
    using assms(1) s2(2) by simp
  have decomp: "?s = run ?s2 post"
    using run_append [of ?new "pre @ [ev]" post] by simp
  have i: "inner (calls ?s ! ?p) = reply (Suc ?p) (map Inbound (delivered ?s2 post))"
    using pending_call_answered [OF s2(1) pend bound] by (simp only: decomp)
  have "?p < length (calls ?s2)"
    using pend s2(1) by (simp add: session_inv_def)
  from run_keeps_call [OF this, of post] sf have "send_error (calls ?s ! ?p) = None"
    by (simp only: decomp)
  with i have res: "call_result (calls ?s ! ?p) = reply (Suc ?p) (map Inbound (delivered ?s2 post))"
    by (simp add: call_result_def)
  have all_read: "unread ?s = [] \<longrightarrow>
      call_result (calls ?s ! ?p) = reply (Suc ?p) (map Inbound (unread ?s1 @ arrivals post))"
  proof
    assume "unread ?s = []"
    with delivered_fifo [of ?s2 post] have "delivered ?s2 post = unread ?s1 @ arrivals post"
      by (simp add: decomp [symmetric] un)
    with res show "call_result (calls ?s ! ?p) =
        reply (Suc ?p) (map Inbound (unread ?s1 @ arrivals post))"
      by simp
  qed
  have fifo: "delivered s evs @ unread (run s evs) = unread s @ arrivals evs"
    by (rule delivered_fifo)
  have lis: "listening (run new_ClientSession evs) \<longleftrightarrow> (\<exists>sr. Initialize sr \<in> set evs)"
    by (simp add: listening_run new_ClientSession_def)
  have quiet: "\<not> listening (run s evs) \<longrightarrow> delivered s evs = []"
    by (simp add: delivered_listening)
  have dropped: "msg = NonObject \<or> obj_id msg = None \<or> (\<exists>k. obj_id msg = Some k \<and> pending s k = None)
      \<longrightarrow> on_message msg s = s"
    by (cases msg) (auto simp: on_message_def split: option.splits)
  from ids res all_read fifo lis quiet dropped show ?thesis
    by (intro conjI)
qed

lemmas eval_session =
  run_def call_def Let_def ensureListener_def listener_next_def on_message_def settle_def
  js_increment_def new_ClientSession_def close_def calls_in_def reply_def handler_outcome_def
  call_result_def arrivals_def

theorem responses_correlated_by_id_witness:
  "calls_in ([ListTools None] @ CallTool ''get_tables'' ''{}'' None #
      [Inbound (Object (Some (IdNum 2)) (Some ''boom'') ''none''),
       Initialize None,
       Inbound (Object (Some (IdStr ''2'')) None ''text id''),
       Inbound (Object None None ''no id''),
       Deliver,
       Inbound (Object (Some (IdNum 2)) None ''late''),
       Inbound (Object (Some (IdNum 1)) None ''tools''),
       Deliver, Deliver, Deliver, Deliver]) < 2 ^ 53
   \<and> \<not> listening (run (new_ClientSession :: string client_session)
        ([ListTools None] @ [CallTool ''get_tables'' ''{}'' None]))
   \<and> map (\<lambda>c. req_id (request c))
        (calls (run (new_ClientSession :: string client_session)
          ([ListTools None] @ CallTool ''get_tables'' ''{}'' None #
            [Inbound (Object (Some (IdNum 2)) (Some ''boom'') ''none''),
             Initialize None,
             Inbound (Object (Some (IdStr ''2'')) None ''text id''),
             Inbound (Object None None ''no id''),
             Deliver,
             Inbound (Object (Some (IdNum 2)) None ''late''),
             Inbound (Object (Some (IdNum 1)) None ''tools''),
             Deliver, Deliver, Deliver, Deliver]))) = [1, 2, 3]
   \<and> delivered (run (new_ClientSession :: string client_session)
          ([ListTools None] @ [CallTool ''get_tables'' ''{}'' None]))
        [Inbound (Object (Some (IdNum 2)) (Some ''boom'') ''none''),
         Initialize None,
         Inbound (Object (Some (IdStr ''2'')) None ''text id''),
         Inbound (Object None None ''no id''),
         Deliver,
         Inbound (Object (Some (IdNum 2)) None ''late''),
         Inbound (Object (Some (IdNum 1)) None ''tools''),
         Deliver, Deliver, Deliver, Deliver] =
       [Object (Some (IdNum 2)) (Some ''boom'') ''none'',
        Object (Some (IdStr ''2'')) None ''text id'',
        Object None None ''no id'',
        Object (Some (IdNum 2)) None ''late'',
        Object (Some (IdNum 1)) None ''tools'']
   \<and> call_result
        (calls (run (new_ClientSession :: string client_session)
          ([ListTools None] @ CallTool ''get_tables'' ''{}'' None #
            [Inbound (Object (Some (IdNum 2)) (Some ''boom'') ''none''),
             Initialize None,
             Inbound (Object (Some (IdStr ''2'')) None ''text id''),
             Inbound (Object None None ''no id''),
             Deliver,
             Inbound (Object (Some (IdNum 2)) None ''late''),
             Inbound (Object (Some (IdNum 1)) None ''tools''),
             Deliver, Deliver, Deliver, Deliver])) ! 1) =
       Some (Rejected (new_Error ''boom''))
   \<and> unread (run (new_ClientSession :: string client_session)
          ([ListTools None] @ CallTool ''get_tables'' ''{}'' None #
            [Inbound (Object (Some (IdNum 2)) (Some ''boom'') ''none''),
             Initialize None,
             Inbound (Object (Some (IdStr ''2'')) None ''text id''),
             Inbound (Object None None ''no id''),
             Deliver,
             Inbound (Object (Some (IdNum 2)) None ''late''),
             Inbound (Object (Some (IdNum 1)) None ''tools''),
             Deliver, Deliver, Deliver, Deliver])) = []
   \<and> reply (Suc 1)
         (map Inbound
            (unread (run (new_ClientSession :: string client_session) [ListTools None]) @
             arrivals
               [Inbound (Object (Some (IdNum 2)) (Some ''boom'') ''none''),
               Initialize None,
               Inbound (Object (Some (IdStr ''2'')) None ''text id''),
               Inbound (Object None None ''no id''),
               Deliver,
               Inbound (Object (Some (IdNum 2)) None ''late''),
               Inbound (Object (Some (IdNum 1)) None ''tools''),
               Deliver, Deliver, Deliver, Deliver])) =
       Some (Rejected (new_Error ''boom''))
   \<and> pending (run (new_ClientSession :: string client_session) [ListTools None]) (IdNum 7) = None
   \<and> on_message (Object (Some (IdNum 7)) None ''stray'')
         (run (new_ClientSession :: string client_session) [ListTools None]) =
       run (new_ClientSession :: string client_session) [ListTools None]"
proof -
  let ?pre = "[ListTools None] :: string event list"
  let ?ev = "CallTool ''get_tables'' ''{}'' None :: string event"
  let ?post = "[Inbound (Object (Some (IdNum 2)) (Some ''boom'') ''none''),
       Initialize None,
       Inbound (Object (Some (IdStr ''2'')) None ''text id''),
       Inbound (Object None None ''no id''),
       Deliver,
       Inbound (Object (Some (IdNum 2)) None ''late''),
       Inbound (Object (Some (IdNum 1)) None ''tools''),
       Deliver, Deliver, Deliver, Deliver] :: string event list"
  let ?read = "[Object (Some (IdNum 2)) (Some ''boom'') ''none'',
        Object (Some (IdStr ''2'')) None ''text id'',
        Object None None ''no id'',
        Object (Some (IdNum 2)) None ''late'',
        Object (Some (IdNum 1)) None ''tools''] :: string inbound list"
  have h1: "calls_in (?pre @ ?ev # ?post) < 2 ^ 53"
    by (simp add: calls_in_def)
  have h2: "is_call ?ev" and h3: "send_failure ?ev = None"
    by simp_all
  have l: "\<not> listening (run (new_ClientSession :: string client_session) (?pre @ [?ev]))"
    by (simp add: eval_session)
  have d: "delivered (run (new_ClientSession :: string client_session) (?pre @ [?ev])) ?post = ?read"
    by (simp add: eval_session)
  have n: "calls_in ?pre = 1" "Suc (calls_in (?pre @ ?ev # ?post)) = 4"
    by (simp_all add: calls_in_def)
  have r: "reply (Suc 1) (map Inbound ?read) = Some (Rejected (new_Error ''boom''))"
    by (simp add: reply_def handler_outcome_def)
  have u: "[1 ..< 4] = [1, 2, 3 :: nat]"
    by (simp add: upt_rec)
  note t = responses_correlated_by_id [OF h1 h2 h3]
  from t [THEN conjunct1] have ids: "map (\<lambda>c. req_id (request c))
        (calls (run (new_ClientSession :: string client_session) (?pre @ ?ev # ?post))) = [1, 2, 3]"
    unfolding n u .
  from t [THEN conjunct2, THEN conjunct1]
  have res: "call_result (calls (run (new_ClientSession :: string client_session)
        (?pre @ ?ev # ?post)) ! 1) = Some (Rejected (new_Error ''boom''))"
    unfolding n d r by simp
  have e: "unread (run (new_ClientSession :: string client_session) (?pre @ ?ev # ?post)) = []"
    by (simp add: eval_session)
  from t [THEN conjunct2, THEN conjunct2, THEN conjunct1, THEN mp, OF e] res
  have all: "reply (Suc 1)
      (map Inbound (unread (run (new_ClientSession :: string client_session) ?pre) @ arrivals ?post)) =
       Some (Rejected (new_Error ''boom''))"
    unfolding n by simp
  let ?s = "run (new_ClientSession :: string client_session) [ListTools None]"
  have k: "pending ?s (IdNum 7) = None"
    by (simp add: eval_session)
  have "Object (Some (IdNum 7)) None ''stray'' = NonObject
      \<or> obj_id (Object (Some (IdNum 7)) None ''stray'') = None
      \<or> (\<exists>k. obj_id (Object (Some (IdNum 7)) None ''stray'') = Some k \<and> pending ?s k = None)"
    using k by simp
  from t [where msg = "Object (Some (IdNum 7)) None ''stray''" and s = ?s, THEN conjunct2,
      THEN conjunct2, THEN conjunct2, THEN conjunct2, THEN conjunct2, THEN conjunct2, THEN mp,
      OF this]
  have o: "on_message (Object (Some (IdNum 7)) None ''stray'') ?s = ?s" .
  show ?thesis
    by (rule conjI [OF h1 conjI [OF l conjI [OF ids conjI [OF d conjI [OF res conjI [OF e
          conjI [OF all conjI [OF k o]]]]]]]])
qed

theorem responses_without_listener_counterexample:
  "req_id (request (calls (run (new_ClientSession :: string client_session)
       [ListTools None, Inbound (Object (Some (IdNum 1)) None ''tools''), Deliver]) ! 0)) = 1
   \<and> call_result (calls (run (new_ClientSession :: string client_session)
       [ListTools None, Inbound (Object (Some (IdNum 1)) None ''tools''), Deliver]) ! 0) = None
   \<and> unread (run (new_ClientSession :: string client_session)
       [ListTools None, Inbound (Object (Some (IdNum 1)) None ''tools''), Deliver]) =
       [Object (Some (IdNum 1)) None ''tools'']
   \<and> reply 1 [Inbound (Object (Some (IdNum 1)) None ''tools'') :: string event] =
       Some (Resolved ''tools'')"
  by (simp add: eval_session)

text \<open>
  Claim C2, as amended. \<^verbatim>\<open>close()\<close> closes the transport and nothing else: the pending
  map, the promises, the counter and the listener flag are as before. A call
  outstanding when \<^verbatim>\<open>close()\<close> is invoked stays unsettled, and its entry stays in the
  pending map, for as long as the listener reads no message with its id; that is so in
  particular when no such message is unread at \<^verbatim>\<open>close()\<close> and none is produced later.
\<close>

theorem close_leaves_calls_pending:
  assumes "calls_in (pre @ Close # post) < 2 ^ 53"
    and "pending (run new_ClientSession pre) (IdNum i) = Some p"
    and "\<forall>m \<in> set (delivered (run new_ClientSession pre) (Close # post)). \<not> answers i (Inbound m)"
  shows "pending (close s) = pending s \<and> calls (close s) = calls s
       \<and> idCounter (close s) = idCounter s \<and> listening (close s) = listening s
       \<and> closed (run new_ClientSession (pre @ [Close]))
       \<and> inner (calls (run new_ClientSession (pre @ Close # post)) ! p) = None
       \<and> pending (run new_ClientSession (pre @ Close # post)) (IdNum i) = Some p"
proof -
  let ?new = "new_ClientSession :: 'a client_session"
  have b: "calls_in pre < 2 ^ 53"
    using assms(1) by (simp add: calls_in_def)
  have inv: "session_inv (run ?new pre)" and c: "idCounter (run ?new pre) = Suc (calls_in pre)"
    using b by (rule session_inv_reachable)+
  have "calls_in (pre @ Close # post) = calls_in pre + calls_in (Close # post)"
    by (simp add: calls_in_def)
  then have bound: "idCounter (run ?new pre) + calls_in (Close # post) \<le> 2 ^ 53"
    using assms(1) c by simp
  have decomp: "run ?new (pre @ Close # post) = run (run ?new pre) (Close # post)"
    by (rule run_append)
  from pending_call_unanswered [OF inv assms(2) bound assms(3)]
  have "inner (calls (run ?new (pre @ Close # post)) ! p) = None
      \<and> pending (run ?new (pre @ Close # post)) (IdNum i) = Some p"
    by (simp only: decomp)
  moreover have "closed (run ?new (pre @ [Close]))"
    by (simp add: run_def close_def)
  ultimately show ?thesis
    by (simp add: close_def)
qed

theorem close_leaves_calls_pending_witness:
  "calls_in ([Initialize None, ListTools None] @ Close #
      [Inbound (Object (Some (IdNum 1)) None ''ready''), Deliver, Inbound NonObject, Deliver,
       CallTool ''t'' ''{}'' None])
     < 2 ^ 53
   \<and> pending (run (new_ClientSession :: string client_session) [Initialize None, ListTools None])
        (IdNum 2) = Some 1
   \<and> delivered (run (new_ClientSession :: string client_session) [Initialize None, ListTools None])
        (Close # [Inbound (Object (Some (IdNum 1)) None ''ready''), Deliver, Inbound NonObject,
           Deliver, CallTool ''t'' ''{}'' None]) =
       [Object (Some (IdNum 1)) None ''ready'', NonObject]
   \<and> inner (calls (run (new_ClientSession :: string client_session)
        ([Initialize None, ListTools None] @ Close #
          [Inbound (Object (Some (IdNum 1)) None ''ready''), Deliver, Inbound NonObject, Deliver,
           CallTool ''t'' ''{}'' None])) ! 1) = None
   \<and> pending (run (new_ClientSession :: string client_session)
        ([Initialize None, ListTools None] @ Close #
          [Inbound (Object (Some (IdNum 1)) None ''ready''), Deliver, Inbound NonObject, Deliver,
           CallTool ''t'' ''{}'' None])) (IdNum 2) = Some 1"
proof -
  let ?pre = "[Initialize None, ListTools None] :: string event list"
  let ?post = "[Inbound (Object (Some (IdNum 1)) None ''ready''), Deliver, Inbound NonObject, Deliver,
           CallTool ''t'' ''{}'' None] :: string event list"
  have h1: "calls_in (?pre @ Close # ?post) < 2 ^ 53"
    by (simp add: calls_in_def)
  have h2: "pending (run (new_ClientSession :: string client_session) ?pre) (IdNum 2) = Some 1"
    by (simp add: eval_session)
  have d: "delivered (run (new_ClientSession :: string client_session) ?pre) (Close # ?post) =
       [Object (Some (IdNum 1)) None ''ready'', NonObject]"
    by (simp add: eval_session)
  have h3: "\<forall>m \<in> set (delivered (run (new_ClientSession :: string client_session) ?pre)
                (Close # ?post)). \<not> answers 2 (Inbound m)"
    unfolding d by simp
  from close_leaves_calls_pending [OF h1 h2 h3] h1 h2 d show ?thesis
    by blast
qed

theorem close_rejects_nothing_counterexample:
  "pending (run (new_ClientSession :: string client_session) [Initialize None, ListTools None])
      (IdNum 2) = Some 1
   \<and> call_result (calls (run (new_ClientSession :: string client_session)
        [Initialize None, ListTools None]) ! 1) = None
   \<and> closed (run (new_ClientSession :: string client_session) [Initialize None, ListTools None, Close])
   \<and> call_result (calls (run (new_ClientSession :: string client_session)
        [Initialize None, ListTools None, Close]) ! 1) = None
   \<and> pending (run (new_ClientSession :: string client_session)
        [Initialize None, ListTools None, Close]) (IdNum 2) = Some 1"
  by (simp add: eval_session)

section \<open>Properties of \<^verbatim>\<open>normalizeUrl\<close>\<close>

lemma strip_slash_id: "s = [] \<or> last s \<noteq> CHR ''/'' \<Longrightarrow> strip_slash s = s"
  by (auto simp: strip_slash_def)

lemma mount_of_slash: "\<exists>m. mount_of mountPath = CHR ''/'' # m"
proof -
  define m where "m = (if mountPath \<noteq> [] \<and> hd mountPath = CHR ''/'' then mountPath
               else CHR ''/'' # mountPath)"
  have "\<exists>t. m = CHR ''/'' # t"
    unfolding m_def by (cases mountPath) auto
  then obtain t where t: "m = CHR ''/'' # t" ..
  show ?thesis
  proof (cases "t = []")
    case True
    with t show ?thesis
      unfolding mount_of_def Let_def m_def [symmetric] by simp
  next
    case False
    then have "strip_slash m = CHR ''/'' # (if last t = CHR ''/'' then butlast t else t)"
      using t by (simp add: strip_slash_def)
    with t False show ?thesis
      unfolding mount_of_def Let_def m_def [symmetric] by simp
  qed
qed

lemma ends_with_append: "ends_with (xs @ ys) ys"
  by (simp add: ends_with_def)

lemma collapse_slashes_suffix:
  assumes "collapse_slashes (CHR ''/'' # ys) = CHR ''/'' # ys"
  shows "\<exists>zs. collapse_slashes (xs @ CHR ''/'' # ys) = zs @ CHR ''/'' # ys"
proof (induction xs rule: length_induct)
  case (1 xs)
  show ?case
  proof (cases xs)
    case Nil
    with assms show ?thesis by (intro exI [of _ "[]"]) simp
  next
    case (Cons c cs)
    show ?thesis
    proof (cases "c = CHR ''/''")
      case False
      from 1 Cons obtain zs where "collapse_slashes (cs @ CHR ''/'' # ys) = zs @ CHR ''/'' # ys"
        by auto
      with Cons False show ?thesis
        by (intro exI [of _ "c # zs"]) simp
    next
      case True
      let ?d = "dropWhile (\<lambda>d. d = CHR ''/'') cs"
      show ?thesis
      proof (cases "?d = []")
        case e: True
        then have all: "\<forall>x \<in> set cs. x = CHR ''/''"
          by (simp add: dropWhile_eq_Nil_conv)
        then have "dropWhile (\<lambda>d. d = CHR ''/'') (cs @ CHR ''/'' # ys) =
                     dropWhile (\<lambda>d. d = CHR ''/'') ys"
          by (simp add: dropWhile_append)
        then have "collapse_slashes (xs @ CHR ''/'' # ys) = collapse_slashes (CHR ''/'' # ys)"
          using Cons True by simp
        with assms show ?thesis
          by (intro exI [of _ "[]"]) simp
      next
        case False
        then have "dropWhile (\<lambda>d. d = CHR ''/'') (cs @ CHR ''/'' # ys) = ?d @ CHR ''/'' # ys"
          by (metis (mono_tags, lifting) dropWhile_append1 dropWhile_eq_Nil_conv)
        moreover have "length ?d < length xs"
          using Cons length_dropWhile_le [of "\<lambda>d. d = CHR ''/''" cs] by simp
        then obtain zs where "collapse_slashes (?d @ CHR ''/'' # ys) = zs @ CHR ''/'' # ys"
          using 1 by auto
        ultimately show ?thesis
          using Cons True by (intro exI [of _ "CHR ''/'' # zs"]) simp
      qed
    qed
  qed
qed

lemma ends_with_collapsed:
  assumes "collapse_slashes (mount_of mountPath) = mount_of mountPath"
  shows "ends_with (collapse_slashes (xs @ mount_of mountPath)) (mount_of mountPath)"
proof -
  obtain m where m: "mount_of mountPath = CHR ''/'' # m"
    using mount_of_slash by blast
  from collapse_slashes_suffix [of m xs] assms obtain zs
    where "collapse_slashes (xs @ mount_of mountPath) = zs @ mount_of mountPath"
    unfolding m by auto
  then show ?thesis
    by (simp add: ends_with_append)
qed

lemma last_collapsed:
  assumes "collapse_slashes (mount_of mountPath) = mount_of mountPath"
  shows "last (collapse_slashes (xs @ mount_of mountPath)) = last (mount_of mountPath)"
proof -
  obtain m where m: "mount_of mountPath = CHR ''/'' # m"
    using mount_of_slash by blast
  from collapse_slashes_suffix [of m xs] assms obtain zs
    where "collapse_slashes (xs @ mount_of mountPath) = zs @ mount_of mountPath"
    unfolding m by auto
  then show ?thesis
    using m by simp
qed

lemma normalizeUrl_kept:
  assumes "parse api (strip_slash baseUrl) = Some u"
    and "strip_slash (pathname api u) = mount_of mountPath
         \<or> ends_with (strip_slash (pathname api u)) (mount_of mountPath)"
  shows "normalizeUrl api baseUrl mountPath = strip_slash baseUrl"
  using assms by (auto simp: normalizeUrl_def Let_def)

lemma normalizeUrl_appended:
  assumes "parse api (strip_slash baseUrl) = Some u"
    and "strip_slash (pathname api u) \<noteq> mount_of mountPath"
    and "\<not> ends_with (strip_slash (pathname api u)) (mount_of mountPath)"
  shows "normalizeUrl api baseUrl mountPath =
           strip_slash (href api (set_pathname api u
             (collapse_slashes (strip_slash (pathname api u) @ mount_of mountPath))))"
  using assms by (simp add: normalizeUrl_def Let_def)

lemma normalizeUrl_fallback:
  assumes "parse api (strip_slash baseUrl) = None"
  shows "normalizeUrl api baseUrl mountPath = strip_slash baseUrl @ mount_of mountPath"
  using assms by (simp add: normalizeUrl_def Let_def)

text \<open>
  Claim C10, as amended. Let the URL constructor accept the base without its trailing
  slash, let that base not end in a further slash, and let the mount path, normalised,
  contain no double slash and not end in a slash. If the URL with the new path,
  serialised and without its trailing slash, does not end in a slash and is accepted
  again with the path that was set, then normalising the result again gives the result:
  the mount path is appended at most once. A base whose path already equals or ends
  with the mount path is returned without its trailing slash and nothing is appended.
\<close>

theorem normalizeUrl_idempotent:
  assumes "parse api (strip_slash baseUrl) = Some u"
    and "strip_slash baseUrl = [] \<or> last (strip_slash baseUrl) \<noteq> CHR ''/''"
    and "collapse_slashes (mount_of mountPath) = mount_of mountPath"
    and "last (mount_of mountPath) \<noteq> CHR ''/''"
    and "r = strip_slash (href api (set_pathname api u
               (collapse_slashes (strip_slash (pathname api u) @ mount_of mountPath))))"
    and "r = [] \<or> last r \<noteq> CHR ''/''"
    and "parse api r = Some u'"
    and "pathname api u' = collapse_slashes (strip_slash (pathname api u) @ mount_of mountPath)"
  shows "normalizeUrl api (normalizeUrl api baseUrl mountPath) mountPath =
           normalizeUrl api baseUrl mountPath
       \<and> (strip_slash (pathname api u) = mount_of mountPath
            \<or> ends_with (strip_slash (pathname api u)) (mount_of mountPath)
          \<longrightarrow> normalizeUrl api baseUrl mountPath = strip_slash baseUrl)"
proof
  let ?t = "strip_slash baseUrl" and ?m = "mount_of mountPath"
  let ?cp = "strip_slash (pathname api u)"
  show "normalizeUrl api (normalizeUrl api baseUrl mountPath) mountPath =
          normalizeUrl api baseUrl mountPath"
  proof (cases "?cp = ?m \<or> ends_with ?cp ?m")
    case True
    have 1: "normalizeUrl api baseUrl mountPath = ?t"
      using assms(1) True by (rule normalizeUrl_kept)
    have t: "strip_slash ?t = ?t"
      using assms(2) by (rule strip_slash_id)
    have "normalizeUrl api ?t mountPath = strip_slash ?t"
      using assms(1) True by (intro normalizeUrl_kept [of api ?t u]) (simp_all add: t)
    then show ?thesis
      unfolding 1 by (simp add: t)
  next
    case False
    have 1: "normalizeUrl api baseUrl mountPath = r"
      using assms(1) False unfolding assms(5) by (intro normalizeUrl_appended) simp_all
    have t: "strip_slash r = r"
      using assms(6) by (rule strip_slash_id)
    let ?P = "collapse_slashes (?cp @ ?m)"
    have "last ?P \<noteq> CHR ''/''"
      using last_collapsed [OF assms(3), of ?cp] assms(4) by simp
    then have "strip_slash ?P = ?P"
      by (intro strip_slash_id) simp
    then have "ends_with (strip_slash (pathname api u')) ?m"
      using ends_with_collapsed [OF assms(3), of ?cp] assms(8) by simp
    then have "normalizeUrl api r mountPath = strip_slash r"
      using assms(7) by (intro normalizeUrl_kept [of api r u']) (simp_all add: t)
    then show ?thesis
      unfolding 1 by (simp add: t)
  qed
next
  show "strip_slash (pathname api u) = mount_of mountPath
            \<or> ends_with (strip_slash (pathname api u)) (mount_of mountPath)
          \<longrightarrow> normalizeUrl api baseUrl mountPath = strip_slash baseUrl"
    using assms(1) by (auto intro: normalizeUrl_kept)
qed

theorem normalizeUrl_idempotent_witness:
  "normalizeUrl simple_api ''http://127.0.0.1:5173'' ''/mcp'' = ''http://127.0.0.1:5173/mcp''
   \<and> normalizeUrl simple_api (normalizeUrl simple_api ''http://127.0.0.1:5173'' ''/mcp'') ''/mcp'' =
       ''http://127.0.0.1:5173/mcp''
   \<and> normalizeUrl simple_api ''http://localhost/api/mcp/'' ''mcp'' = ''http://localhost/api/mcp''"
proof -
  let ?b = "''http://127.0.0.1:5173''" and ?r = "''http://127.0.0.1:5173/mcp''"
  let ?u = "SimpleUrl ''http'' ''127.0.0.1:5173'' ''/'' ''''"
  let ?u' = "SimpleUrl ''http'' ''127.0.0.1:5173'' ''/mcp'' ''''"
  have e: "normalizeUrl simple_api ?b ''/mcp'' = ?r"
    by code_simp
  have 1: "parse simple_api (strip_slash ?b) = Some ?u"
    by code_simp
  have 2: "strip_slash ?b = [] \<or> last (strip_slash ?b) \<noteq> CHR ''/''"
    by code_simp
  have 3: "collapse_slashes (mount_of ''/mcp'') = mount_of ''/mcp''"
    by code_simp
  have 4: "last (mount_of ''/mcp'') \<noteq> CHR ''/''"
    by code_simp
  have 5: "?r = strip_slash (href simple_api (set_pathname simple_api ?u
               (collapse_slashes (strip_slash (pathname simple_api ?u) @ mount_of ''/mcp''))))"
    by code_simp
  have 6: "?r = [] \<or> last ?r \<noteq> CHR ''/''"
    by code_simp
  have 7: "parse simple_api ?r = Some ?u'"
    by code_simp
  have 8: "pathname simple_api ?u' =
             collapse_slashes (strip_slash (pathname simple_api ?u) @ mount_of ''/mcp'')"
    by code_simp
  have i: "normalizeUrl simple_api (normalizeUrl simple_api ?b ''/mcp'') ''/mcp'' = ?r"
    using normalizeUrl_idempotent [OF 1 2 3 4 5 6 7 8] e by simp
  let ?c = "''http://localhost/api/mcp/''"
  let ?v = "SimpleUrl ''http'' ''localhost'' ''/api/mcp'' ''''"
  let ?s = "''http://localhost/api/mcp/mcp''"
  let ?v' = "SimpleUrl ''http'' ''localhost'' ''/api/mcp/mcp'' ''''"
  have c1: "parse simple_api (strip_slash ?c) = Some ?v"
    by code_simp
  have c2: "strip_slash ?c = [] \<or> last (strip_slash ?c) \<noteq> CHR ''/''"
    by code_simp
  have c3: "collapse_slashes (mount_of ''mcp'') = mount_of ''mcp''"
    by code_simp
  have c4: "last (mount_of ''mcp'') \<noteq> CHR ''/''"
    by code_simp
  have c5: "?s = strip_slash (href simple_api (set_pathname simple_api ?v
               (collapse_slashes (strip_slash (pathname simple_api ?v) @ mount_of ''mcp''))))"
    by code_simp
  have c6: "?s = [] \<or> last ?s \<noteq> CHR ''/''"
    by code_simp
  have c7: "parse simple_api ?s = Some ?v'"
    by code_simp
  have c8: "pathname simple_api ?v' =
             collapse_slashes (strip_slash (pathname simple_api ?v) @ mount_of ''mcp'')"
    by code_simp
  have c9: "ends_with (strip_slash (pathname simple_api ?v)) (mount_of ''mcp'')"
    by code_simp
  have c10: "strip_slash ?c = ''http://localhost/api/mcp''"
    by code_simp
  have k: "normalizeUrl simple_api ?c ''mcp'' = ''http://localhost/api/mcp''"
    using normalizeUrl_idempotent [OF c1 c2 c3 c4 c5 c6 c7 c8, THEN conjunct2] c9 c10 by simp
  from e i k show ?thesis
    by simp
qed

theorem normalizeUrl_idempotent_counterexample:
  "parse simple_api (strip_slash ''foo'') = None
   \<and> normalizeUrl simple_api ''foo'' ''/mcp'' = ''foo/mcp''
   \<and> normalizeUrl simple_api (normalizeUrl simple_api ''foo'' ''/mcp'') ''/mcp'' = ''foo/mcp/mcp''
   \<and> normalizeUrl simple_api (normalizeUrl simple_api ''foo'' ''/mcp'') ''/mcp'' \<noteq>
       normalizeUrl simple_api ''foo'' ''/mcp''
   \<and> normalizeUrl simple_api ''http://h'' ''//mcp'' = ''http://h/mcp''
   \<and> normalizeUrl simple_api (normalizeUrl simple_api ''http://h'' ''//mcp'') ''//mcp'' =
       ''http://h/mcp/mcp''"
proof -
  have 1: "parse simple_api (strip_slash ''foo'') = None"
    by code_simp
  have 2: "normalizeUrl simple_api ''foo'' ''/mcp'' = ''foo/mcp''"
    by code_simp
  have 3: "normalizeUrl simple_api ''foo/mcp'' ''/mcp'' = ''foo/mcp/mcp''"
    by code_simp
  have 4: "normalizeUrl simple_api ''http://h'' ''//mcp'' = ''http://h/mcp''"
    by code_simp
  have 5: "normalizeUrl simple_api ''http://h/mcp'' ''//mcp'' = ''http://h/mcp/mcp''"
    by code_simp
  from 1 2 3 4 5 show ?thesis
    by simp
qed

section \<open>Properties of the fallback transport\<close>

lemma probe_all_fail:
  "\<forall>x \<in> set cands. probe_fails net (base t @ cand_read x) \<Longrightarrow>
     \<exists>n'. probe net cands (res, t, n) = (res, t, n')"
proof (induction cands arbitrary: n)
  case Nil
  show ?case by simp
next
  case (Cons c cands)
  obtain r n1 where g: "fetch_get net n (base t @ cand_read c) = (r, n1)"
    by (cases "fetch_get net n (base t @ cand_read c)")
  have "probe_fails net (base t @ cand_read c)"
    using Cons.prems by simp
  then have "case r of Inr pr \<Rightarrow> \<not> ok pr | Inl err \<Rightarrow> True"
    using g unfolding probe_fails_def by (metis fst_conv)
  then have "probe net (c # cands) (res, t, n) = probe net cands (res, t, n1)"
    using g by (cases r) simp_all
  moreover obtain n' where "probe net cands (res, t, n1) = (res, t, n')"
    using Cons.IH [of n1] Cons.prems by auto
  ultimately show ?case by simp
qed

lemma probe_skip:
  "\<forall>x \<in> set xs. probe_fails net (base t @ cand_read x) \<Longrightarrow>
     \<exists>m. probe net (xs @ ys) (res, t, n) = probe net ys (res, t, m)"
proof (induction xs arbitrary: n)
  case Nil
  show ?case by auto
next
  case (Cons x xs)
  obtain r n1 where g: "fetch_get net n (base t @ cand_read x) = (r, n1)"
    by (cases "fetch_get net n (base t @ cand_read x)")
  have "probe_fails net (base t @ cand_read x)"
    using Cons.prems by simp
  then have "case r of Inr pr \<Rightarrow> \<not> ok pr | Inl err \<Rightarrow> True"
    using g unfolding probe_fails_def by (metis fst_conv)
  then have "probe net ((x # xs) @ ys) (res, t, n) = probe net (xs @ ys) (res, t, n1)"
    using g by (cases r) simp_all
  moreover obtain m where "probe net (xs @ ys) (res, t, n1) = probe net ys (res, t, m)"
    using Cons.IH [of n1] Cons.prems by auto
  ultimately show ?case by auto
qed

lemma probe_first_success:
  assumes "\<forall>x \<in> set pre. probe_fails net (base t @ cand_read x)"
    and "probe_succeeds net (base t @ cand_read c)"
  shows "\<exists>pr m n'. probe net (pre @ c # post) (res, t, n) = (pr, adopt c t, n') \<and> ok pr
           \<and> fetch_get net m (base t @ cand_read c) = (Inr pr, n')"
proof -
  obtain m where 1: "probe net (pre @ c # post) (res, t, n) = probe net (c # post) (res, t, m)"
    using probe_skip [OF assms(1)] by blast
  obtain pr n2 where 2: "fetch_get net m (base t @ cand_read c) = (Inr pr, n2)" and 3: "ok pr"
    using assms(2) unfolding probe_succeeds_def by blast
  have "probe net (c # post) (res, t, m) = (pr, adopt c t, n2)"
    using 2 3 by (simp add: adopt_def)
  with 1 2 3 show ?thesis
    by auto
qed

lemma send_adopted:
  "send net (adopt c t) msg n =
     (case fetch_post net n (base t @ cand_write c) (Some msg) of
        (Inl err, n') \<Rightarrow> (Some err, n')
      | (Inr res, n') \<Rightarrow> (None, n'))"
  by (simp add: send_def adopt_def)

text \<open>
  Claim C9, as amended. Let the GET of the read URL answer with status 404. If the
  candidates before some candidate all fail when probed (the probe rejects, or its status
  is not a success) and that candidate succeeds, the iterator streams the response of
  that probe and the closure variables hold that candidate's read and write paths and
  URLs. If every candidate fails, the closure variables are unchanged and the iterator
  goes on with the 404 response: it throws \<^verbatim>\<open>No response body for streaming\<close> when that
  response has no body, and otherwise yields the lines of its body that parse.
\<close>

theorem probe_adopts_first_success:
  assumes "fetch_get net n (readUrl t) = (Inr res, n1)" and "status res = 404"
  shows "(probeCandidates = pre @ c # post
          \<and> (\<forall>x \<in> set pre. probe_fails net (base t @ cand_read x))
          \<and> probe_succeeds net (base t @ cand_read c) \<longrightarrow>
            (\<exists>pr n2. messages_of net JSON_parse t n = (stream_of JSON_parse pr, adopt c t, n2)
                \<and> ok pr \<and> (\<exists>m. fetch_get net m (base t @ cand_read c) = (Inr pr, n2))))
       \<and> ((\<forall>x \<in> set probeCandidates. probe_fails net (base t @ cand_read x)) \<longrightarrow>
            (\<exists>n2. messages_of net JSON_parse t n = (stream_of JSON_parse res, t, n2)))"
proof (intro conjI impI)
  assume h: "probeCandidates = pre @ c # post
          \<and> (\<forall>x \<in> set pre. probe_fails net (base t @ cand_read x))
          \<and> probe_succeeds net (base t @ cand_read c)"
  then have f: "\<forall>x \<in> set pre. probe_fails net (base t @ cand_read x)"
    and s: "probe_succeeds net (base t @ cand_read c)" and l: "probeCandidates = pre @ c # post"
    by simp_all
  obtain pr m n2 where 4: "probe net (pre @ c # post) (res, t, n1) = (pr, adopt c t, n2)"
    and 5: "ok pr" and 6: "fetch_get net m (base t @ cand_read c) = (Inr pr, n2)"
    using probe_first_success [OF f s] by blast
  have "messages_of net JSON_parse t n = (stream_of JSON_parse pr, adopt c t, n2)"
    using assms 4 by (simp add: messages_of_def l stream_of_def split: option.splits)
  with 5 6 show "\<exists>pr n2. messages_of net JSON_parse t n = (stream_of JSON_parse pr, adopt c t, n2)
                \<and> ok pr \<and> (\<exists>m. fetch_get net m (base t @ cand_read c) = (Inr pr, n2))"
    by blast
next
  assume a: "\<forall>x \<in> set probeCandidates. probe_fails net (base t @ cand_read x)"
  obtain n2 where "probe net probeCandidates (res, t, n1) = (res, t, n2)"
    using probe_all_fail [OF a, of res n1] by (elim exE)
  then have "messages_of net JSON_parse t n = (stream_of JSON_parse res, t, n2)"
    using assms by (simp add: messages_of_def stream_of_def split: option.splits)
  then show "\<exists>n2. messages_of net JSON_parse t n = (stream_of JSON_parse res, t, n2)"
    by blast
qed


theorem probe_adopts_first_success_witness:
  "streamableHttpClient events_network default_options () = (transport0, ())
   \<and> messages_of events_network digits_parse transport0 () =
       (Inr [''12'', ''3''],
        \<lparr>base = ''http://h/mcp'', readPath = ''/events'', writePath = ''/send'',
         readUrl = ''http://h/mcp/events'', writeUrl = ''http://h/mcp/send''\<rparr>, ())
   \<and> messages_of bare_network digits_parse transport0 () =
       (Inl (new_Error ''No response body for streaming''), transport0, ())"
proof -
  let ?c = "Candidate ''/events'' ''/send''"
  let ?pre = "[Candidate ''/read'' ''/write'', Candidate ''/stream/read'' ''/stream/write'']"
  let ?res = "\<lparr>status = 404, body = None\<rparr>"
  let ?pr = "\<lparr>status = 200, body = Some [''1'', ''2'' @ [CHR 0x0A] @ '' oops'', [CHR 0x0A] @ ''3 '']\<rparr>"
  have 0: "streamableHttpClient events_network default_options () = (transport0, ())"
    by code_simp
  have g: "fetch_get events_network () (readUrl transport0) = (Inr ?res, ())"
    by code_simp
  have s: "status ?res = 404"
    by simp
  have l: "probeCandidates = ?pre @ ?c # []"
    by (simp add: probeCandidates_def)
  have f1: "probe_fails events_network (base transport0 @ ''/read'')"
    unfolding probe_fails_def by (rule allI) code_simp
  have f2: "probe_fails events_network (base transport0 @ ''/stream/read'')"
    unfolding probe_fails_def by (rule allI) code_simp
  have f: "\<forall>x \<in> set ?pre. probe_fails events_network (base transport0 @ cand_read x)"
    using f1 f2 by simp
  have e: "fetch_get events_network m (base transport0 @ cand_read ?c) = (Inr ?pr, ())" for m
    by code_simp
  have k: "ok ?pr"
    by code_simp
  have p: "probe_succeeds events_network (base transport0 @ cand_read ?c)"
    unfolding probe_succeeds_def using e k by blast
  from probe_adopts_first_success [OF g s, THEN conjunct1, THEN mp, OF conjI [OF l conjI [OF f p]],
      of digits_parse]
  obtain pr n2 where 1: "messages_of events_network digits_parse transport0 () =
      (stream_of digits_parse pr, adopt ?c transport0, n2)"
    and 2: "\<exists>m. fetch_get events_network m (base transport0 @ cand_read ?c) = (Inr pr, n2)"
    by blast
  from 2 e have "pr = ?pr"
    by auto
  moreover have "stream_of digits_parse ?pr = Inr [''12'', ''3'']"
    by code_simp
  moreover have "adopt ?c transport0 =
      \<lparr>base = ''http://h/mcp'', readPath = ''/events'', writePath = ''/send'',
       readUrl = ''http://h/mcp/events'', writeUrl = ''http://h/mcp/send''\<rparr>"
    by code_simp
  ultimately have a: "messages_of events_network digits_parse transport0 () =
       (Inr [''12'', ''3''],
        \<lparr>base = ''http://h/mcp'', readPath = ''/events'', writePath = ''/send'',
         readUrl = ''http://h/mcp/events'', writeUrl = ''http://h/mcp/send''\<rparr>, ())"
    using 1 by simp
  have g': "fetch_get bare_network () (readUrl transport0) = (Inr ?res, ())"
    by code_simp
  have "probe_fails bare_network url" for url
    unfolding probe_fails_def by (rule allI) code_simp
  then have f': "\<forall>x \<in> set probeCandidates. probe_fails bare_network (base transport0 @ cand_read x)"
    by simp
  from probe_adopts_first_success [OF g' s, THEN conjunct2, THEN mp, OF f', of digits_parse]
  have b: "messages_of bare_network digits_parse transport0 () =
       (Inl (new_Error ''No response body for streaming''), transport0, ())"
    by (simp add: stream_of_def)
  from 0 a b show ?thesis
    by (intro conjI)
qed

theorem probe_exhausted_counterexample:
  "fetch_get not_found_network () (readUrl transport0) =
     (Inr \<lparr>status = 404, body = Some [''Not Found'']\<rparr>, ())
   \<and> probe not_found_network probeCandidates
        (\<lparr>status = 404, body = Some [''Not Found'']\<rparr>, transport0, ()) =
       (\<lparr>status = 404, body = Some [''Not Found'']\<rparr>, transport0, ())
   \<and> messages_of not_found_network digits_parse transport0 () = (Inr [], transport0, ())"
proof -
  have 1: "fetch_get not_found_network () (readUrl transport0) =
     (Inr \<lparr>status = 404, body = Some [''Not Found'']\<rparr>, ())"
    by code_simp
  have 2: "probe not_found_network probeCandidates
        (\<lparr>status = 404, body = Some [''Not Found'']\<rparr>, transport0, ()) =
       (\<lparr>status = 404, body = Some [''Not Found'']\<rparr>, transport0, ())"
    by code_simp
  have 3: "messages_of not_found_network digits_parse transport0 () = (Inr [], transport0, ())"
    by code_simp
  from 1 2 3 show ?thesis
    by (intro conjI)
qed

end
